theory Spec2Isabelle
  imports Main
begin

section \<open>Utilities: the segment tokenizer\<close>

text \<open>
  \<^verbatim>\<open>splitWithoutEmptyStrings(data, separator)\<close> scans \<open>data\<close> with an index \<open>i\<close>, a
  \<open>buffer\<close> and the \<open>result\<close> array. At a separator the buffer is pushed unless it is
  empty and the separator sits at index \<open>0\<close> or at index \<open>data.length - 1\<close>. After the
  loop a non-empty buffer is pushed, and an empty result is replaced by \<open>[data]\<close>.
  The loop below carries \<open>n = data.length\<close>, the index \<open>i\<close> and the characters from
  index \<open>i\<close> on.
\<close>

fun splitLoop :: "char \<Rightarrow> nat \<Rightarrow> nat \<Rightarrow> string \<Rightarrow> string \<Rightarrow> string list \<Rightarrow> string list \<times> string" where
  "splitLoop separator n i [] buffer result = (result, buffer)"
| "splitLoop separator n i (c # cs) buffer result =
     (if c = separator then
        splitLoop separator n (i + 1) cs []
          (if \<not> (buffer = [] \<and> (i = 0 \<or> i = n - 1)) then result @ [buffer] else result)
      else splitLoop separator n (i + 1) cs (buffer @ [c]) result)"

definition splitWithoutEmptyStrings :: "string \<Rightarrow> char \<Rightarrow> string list" where
  "splitWithoutEmptyStrings data separator =
     (case splitLoop separator (length data) 0 data [] [] of
        (result, buffer) \<Rightarrow>
          (let result' = (if buffer \<noteq> [] then result @ [buffer] else result)
           in if length result' = 0 then result' @ [data] else result'))"

text \<open>
  The plain split at every separator (one piece more than there are separators), and the
  delimiter-collapsing split of the specification: the non-empty pieces, or the input
  itself when there is none.
\<close>

fun pieces :: "char \<Rightarrow> string \<Rightarrow> string list" where
  "pieces separator [] = [[]]"
| "pieces separator (c # cs) =
     (if c = separator then [] # pieces separator cs
      else (case pieces separator cs of
              [] \<Rightarrow> [[c]]
            | p # ps \<Rightarrow> (c # p) # ps))"

definition collapsing_split_spec :: "string \<Rightarrow> char \<Rightarrow> string list" where
  "collapsing_split_spec data separator =
     (let segs = filter (\<lambda>s. s \<noteq> []) (pieces separator data)
      in if segs = [] then [data] else segs)"

text \<open>The pieces of the rest of the input, the first one continuing the buffer.\<close>

fun prependBuffer :: "string \<Rightarrow> string list \<Rightarrow> string list" where
  "prependBuffer b [] = [b]"
| "prependBuffer b (p # ps) = (b @ p) # ps"

text \<open>
  Dropping an empty piece at the front, and an empty piece at the back, of a list of
  pieces.
\<close>

definition dropFirstEmpty :: "string list \<Rightarrow> string list" where
  "dropFirstEmpty ps = (case ps of [] \<Rightarrow> [] | p # rest \<Rightarrow> if p = [] then rest else ps)"

definition dropLastEmpty :: "string list \<Rightarrow> string list" where
  "dropLastEmpty ps = (if ps \<noteq> [] \<and> last ps = [] then butlast ps else ps)"

text \<open>No two neighbouring characters of the input are both separators.\<close>

fun no_adjacent :: "char \<Rightarrow> string \<Rightarrow> bool" where
  "no_adjacent separator (a # b # cs) =
     (\<not> (a = separator \<and> b = separator) \<and> no_adjacent separator (b # cs))"
| "no_adjacent separator cs = True"

section \<open>Routes and handler entries\<close>

text \<open>
  The classes \<^verbatim>\<open>Handler\<close> and \<^verbatim>\<open>SplitHandler\<close> are the two kinds of entry a route
  stores per method. The type variables stand for the caller's functions: \<open>'h\<close> a terminal
  handler, \<open>'s\<close> a splitter, \<open>'m\<close> a middleware. A \<^verbatim>\<open>Route\<close> has its path, the object
  \<^verbatim>\<open>handlers\<close> (method name to entry) and the route's middlewares.
\<close>

datatype ('h, 's, 'm) handlerEntry =
    Handler 'h "'m list"
  | SplitHandler 's "'h list" "'m list"

fun entryMiddlewares :: "('h, 's, 'm) handlerEntry \<Rightarrow> 'm list" where
  "entryMiddlewares (Handler h ms) = ms"
| "entryMiddlewares (SplitHandler sp hs ms) = ms"

record ('h, 's, 'm) route =
  path :: string
  handlers :: "string \<rightharpoonup> ('h, 's, 'm) handlerEntry"
  middlewares :: "'m list"

text \<open>\<^verbatim>\<open>new Route(path)\<close>: no handlers, no middlewares.\<close>

definition newRoute :: "string \<Rightarrow> ('h, 's, 'm) route" where
  "newRoute p = \<lparr>path = p, handlers = Map.empty, middlewares = []\<rparr>"

text \<open>
  \<^verbatim>\<open>exports.routes\<close> is an array in dynamic mode and a plain object keyed by path in static
  mode. The object is an association list in insertion order (the order \<^verbatim>\<open>for ... in\<close>
  visits string keys); \<open>objSet\<close> is the assignment \<^verbatim>\<open>obj[key] = value\<close>, which keeps the
  place of a key that is already there.
\<close>

datatype ('h, 's, 'm) routeTable =
    DynamicRoutes "('h, 's, 'm) route list"
  | StaticRoutes "(string \<times> ('h, 's, 'm) route) list"

fun objSet :: "('k \<times> 'v) list \<Rightarrow> 'k \<Rightarrow> 'v \<Rightarrow> ('k \<times> 'v) list" where
  "objSet [] k v = [(k, v)]"
| "objSet ((k', v') # kvs) k v = (if k' = k then (k, v) # kvs else (k', v') # objSet kvs k v)"

definition searchMode :: "('h, 's, 'm) routeTable \<Rightarrow> string" where
  "searchMode t = (case t of DynamicRoutes rs \<Rightarrow> ''dynamic'' | StaticRoutes kvs \<Rightarrow> ''static'')"

section \<open>Route registration: route, reorder, setSearchMode\<close>

text \<open>The two errors the router reports through its \<open>error\<close> event.\<close>

datatype toldiError =
    InvalidSearchMode string
  | SplitterOutOfRange int

text \<open>
  \<^verbatim>\<open>exports.route(path, createNew)\<close> prefixes the path with a slash when it has none,
  returns the route stored under that path, and otherwise (when \<open>createNew\<close>) stores a new
  route: pushed at the end of the array, or assigned under its path in the object.
\<close>

definition normalizePath :: "string \<Rightarrow> string" where
  "normalizePath p = (case p of [] \<Rightarrow> ''/'' | c # cs \<Rightarrow> if c \<noteq> CHR ''/'' then CHR ''/'' # p else p)"

definition routeFn ::
  "string \<Rightarrow> bool \<Rightarrow> ('h, 's, 'm) routeTable \<Rightarrow> ('h, 's, 'm) route option \<times> ('h, 's, 'm) routeTable" where
  "routeFn p0 createNew t =
     (let p = normalizePath p0 in
      case t of
        DynamicRoutes rs \<Rightarrow>
          (case find (\<lambda>r. path r = p) rs of
             Some r \<Rightarrow> (Some r, t)
           | None \<Rightarrow> if \<not> createNew then (None, t)
                     else (Some (newRoute p), DynamicRoutes (rs @ [newRoute p])))
      | StaticRoutes kvs \<Rightarrow>
          (case map_of kvs p of
             Some r \<Rightarrow> (Some r, t)
           | None \<Rightarrow> if \<not> createNew then (None, t)
                     else (Some (newRoute p), StaticRoutes (objSet kvs p (newRoute p)))))"



text \<open>
  \<^verbatim>\<open>exports.setSearchMode(searchMode, keepRoutes)\<close>: nothing happens when the mode is the
  current one; switching to \<open>dynamic\<close> collects the object's own values into an array,
  switching to \<open>static\<close> assigns every route of the array under its path; without
  \<open>keepRoutes\<close> the new table is empty; any other mode name emits an error and changes
  nothing. The second component is the list of emitted errors.
\<close>

fun toObject :: "('h, 's, 'm) route list \<Rightarrow> (string \<times> ('h, 's, 'm) route) list \<Rightarrow>
    (string \<times> ('h, 's, 'm) route) list" where
  "toObject [] tempRoutes = tempRoutes"
| "toObject (r # rs) tempRoutes = toObject rs (objSet tempRoutes (path r) r)"

definition setSearchMode ::
  "string \<Rightarrow> bool \<Rightarrow> ('h, 's, 'm) routeTable \<Rightarrow> ('h, 's, 'm) routeTable \<times> toldiError list" where
  "setSearchMode mode keepRoutes t =
     (if searchMode t = mode then (t, [])
      else if mode = ''dynamic'' then
        (case t of
           StaticRoutes kvs \<Rightarrow> (DynamicRoutes (if keepRoutes then map snd kvs else []), [])
         | DynamicRoutes rs \<Rightarrow> (t, []))
      else if mode = ''static'' then
        (case t of
           DynamicRoutes rs \<Rightarrow> (StaticRoutes (if keepRoutes then toObject rs [] else []), [])
         | StaticRoutes kvs \<Rightarrow> (t, []))
      else (t, [InvalidSearchMode mode]))"

section \<open>Route lookup\<close>

text \<open>
  The inner loop of the dynamic search walks the request's segments with index \<open>j\<close>
  against the route's segments: \<open>*\<close> ends the walk with success, a segment wrapped in
  braces binds a parameter, any other segment must equal the request's. Reading past the
  end of the route's segments gives \<^verbatim>\<open>undefined\<close>, which differs from every request
  segment.
\<close>

type_synonym params = "string \<rightharpoonup> string"

definition isParam :: "string \<Rightarrow> bool" where
  "isParam seg = (seg \<noteq> [] \<and> hd seg = CHR ''{'' \<and> last seg = CHR ''}'')"

definition paramName :: "string \<Rightarrow> string" where
  "paramName seg = take (length seg - 1 - 1) (drop 1 seg)"

fun matchLoop :: "string list \<Rightarrow> string list \<Rightarrow> params \<Rightarrow> params option" where
  "matchLoop [] splitRoutePath temp = Some temp"
| "matchLoop (r # rs) [] temp = None"
| "matchLoop (r # rs) (p # ps) temp =
     (if p = ''*'' then Some temp
      else if isParam p then matchLoop rs ps (temp(paramName p \<mapsto> r))
      else if r \<noteq> p then None
      else matchLoop rs ps temp)"

text \<open>
  One candidate route of the dynamic search: skipped when it has neither the method's
  entry nor the \<open>ALL\<close> entry, skipped when the segment counts differ, then matched segment
  by segment. The selected entry is \<^verbatim>\<open>handlers[method] || handlers["ALL"]\<close>.
\<close>

definition tryRoute ::
  "string list \<Rightarrow> string \<Rightarrow> ('h, 's, 'm) route \<Rightarrow> (('h, 's, 'm) handlerEntry \<times> params) option" where
  "tryRoute splitReqPath upperCaseMethod r =
     (if handlers r upperCaseMethod = None \<and> handlers r ''ALL'' = None then None
      else let splitRoutePath = splitWithoutEmptyStrings (path r) CHR ''/'' in
        if length splitReqPath \<noteq> length splitRoutePath then None
        else (case matchLoop splitReqPath splitRoutePath Map.empty of
                None \<Rightarrow> None
              | Some temp \<Rightarrow>
                  (case handlers r upperCaseMethod of
                     Some h \<Rightarrow> Some (h, temp)
                   | None \<Rightarrow> (case handlers r ''ALL'' of
                                Some h \<Rightarrow> Some (h, temp)
                              | None \<Rightarrow> None))))"

fun dynamicSearch ::
  "('h, 's, 'm) route list \<Rightarrow> string list \<Rightarrow> string \<Rightarrow>
   (('h, 's, 'm) route \<times> ('h, 's, 'm) handlerEntry \<times> params) option" where
  "dynamicSearch [] splitReqPath upperCaseMethod = None"
| "dynamicSearch (r # rs) splitReqPath upperCaseMethod =
     (case tryRoute splitReqPath upperCaseMethod r of
        Some (h, temp) \<Rightarrow> Some (r, h, temp)
      | None \<Rightarrow> dynamicSearch rs splitReqPath upperCaseMethod)"

text \<open>
  The static search reads \<^verbatim>\<open>routes[req.path]\<close> and dispatches only when the route has an
  entry for the method itself: the test is \<^verbatim>\<open>route && route.handlers[upperCaseMethod]\<close>.
  It does not touch \<^verbatim>\<open>req.params\<close>.
\<close>

definition staticSearch ::
  "(string \<times> ('h, 's, 'm) route) list \<Rightarrow> string \<Rightarrow> string \<Rightarrow>
   (('h, 's, 'm) route \<times> ('h, 's, 'm) handlerEntry) option" where
  "staticSearch kvs reqPath upperCaseMethod =
     (case map_of kvs reqPath of
        None \<Rightarrow> None
      | Some r \<Rightarrow>
          (case handlers r upperCaseMethod of
             None \<Rightarrow> None
           | Some h \<Rightarrow> Some (r, h)))"

text \<open>
  The route and entry the request handler selects for a normalized request path and an
  upper-case method; \<open>None\<close> is the fall-through to the fallback handler.
\<close>

definition selectHandler ::
  "('h, 's, 'm) routeTable \<Rightarrow> string \<Rightarrow> string \<Rightarrow>
   (('h, 's, 'm) route \<times> ('h, 's, 'm) handlerEntry) option" where
  "selectHandler t reqPath upperCaseMethod =
     (case t of
        DynamicRoutes rs \<Rightarrow>
          (case dynamicSearch rs (splitWithoutEmptyStrings reqPath CHR ''/'') upperCaseMethod of
             None \<Rightarrow> None
           | Some (r, h, temp) \<Rightarrow> Some (r, h))
      | StaticRoutes kvs \<Rightarrow> staticSearch kvs reqPath upperCaseMethod)"



definition eligible :: "string \<Rightarrow> ('h, 's, 'm) route \<Rightarrow> bool" where
  "eligible m r = (handlers r m \<noteq> None \<or> handlers r ''ALL'' \<noteq> None)"

definition pathMatches :: "string list \<Rightarrow> ('h, 's, 'm) route \<Rightarrow> bool" where
  "pathMatches R r =
     (length R = length (splitWithoutEmptyStrings (path r) CHR ''/'') \<and>
      matchLoop R (splitWithoutEmptyStrings (path r) CHR ''/'') Map.empty \<noteq> None)"

definition chosenEntry :: "string \<Rightarrow> ('h, 's, 'm) route \<Rightarrow> ('h, 's, 'm) handlerEntry option" where
  "chosenEntry m r = (case handlers r m of Some h \<Rightarrow> Some h | None \<Rightarrow> handlers r ''ALL'')"

definition boundParams :: "string list \<Rightarrow> ('h, 's, 'm) route \<Rightarrow> params" where
  "boundParams R r =
     (case matchLoop R (splitWithoutEmptyStrings (path r) CHR ''/'') Map.empty of
        Some temp \<Rightarrow> temp
      | None \<Rightarrow> Map.empty)"

text \<open>
  A literal route has no \<open>*\<close> segment and no segment wrapped in braces. A table is well
  formed when it is one that \<open>routeFn\<close> builds: no two routes of the array share a path,
  and every key of the object is the path of the route stored under it.
\<close>

definition literalRoute :: "('h, 's, 'm) route \<Rightarrow> bool" where
  "literalRoute r =
     (\<forall>seg \<in> set (splitWithoutEmptyStrings (path r) CHR ''/''). seg \<noteq> ''*'' \<and> \<not> isParam seg)"

definition tableRoutes :: "('h, 's, 'm) routeTable \<Rightarrow> ('h, 's, 'm) route list" where
  "tableRoutes t = (case t of DynamicRoutes rs \<Rightarrow> rs | StaticRoutes kvs \<Rightarrow> map snd kvs)"

definition wellFormed :: "('h, 's, 'm) routeTable \<Rightarrow> bool" where
  "wellFormed t =
     (case t of
        DynamicRoutes rs \<Rightarrow> distinct (map path rs)
      | StaticRoutes kvs \<Rightarrow> distinct (map fst kvs) \<and> (\<forall>(k, r) \<in> set kvs. path r = k))"

section \<open>Requests, responses and the caller's functions\<close>

text \<open>
  The request carries what the router and the built-in parsers read and attach: the URL,
  the method (\<open>reqMethod\<close>), the \<open>Cookie\<close> header, and the properties \<^verbatim>\<open>path\<close>, \<^verbatim>\<open>params\<close>, \<^verbatim>\<open>query\<close>
  and \<^verbatim>\<open>cookies\<close> (the last three absent until attached); \<open>user\<close> is whatever else the caller's code
  keeps on the request. The response records the calls of \<^verbatim>\<open>writeHead\<close> and \<^verbatim>\<open>end\<close>.
  Values of parsed fields are booleans, numbers or strings; the number type \<open>'n\<close> and the
  conversion \<^verbatim>\<open>Number(...)\<close> belong to the runtime, so the conversion is a parameter
  \<open>toNumber\<close> that returns \<open>None\<close> for \<^verbatim>\<open>NaN\<close>.
\<close>

datatype 'n jsValue = JBool bool | JNum 'n | JStr string

datatype resEvent = WriteHead nat string | End "string option"

record ('n, 'x) request =
  url :: string
  reqMethod :: string
  cookieHeader :: "string option"
  reqPath :: string
  reqParams :: "params option"
  query :: "(string \<rightharpoonup> 'n jsValue) option"
  cookies :: "(string \<rightharpoonup> 'n jsValue) option"
  user :: 'x

record response =
  written :: "resEvent list"

type_synonym ('n, 'x) exchange = "('n, 'x) request \<times> response"

text \<open>
  The caller's functions act on the request and the response. A middleware returns,
  besides the new state, whether it invoked its continuation \<open>done\<close>; a splitter returns
  the index it chose.
\<close>

type_synonym ('n, 'x) handlerFn = "('n, 'x) exchange \<Rightarrow> ('n, 'x) exchange"
type_synonym ('n, 'x) middlewareFn = "('n, 'x) exchange \<Rightarrow> ('n, 'x) exchange \<times> nat"
type_synonym ('n, 'x) splitterFn = "('n, 'x) exchange \<Rightarrow> ('n, 'x) exchange \<times> int"

text \<open>
  What the router itself does is recorded in a trace the caller's functions cannot touch:
  each call of a middleware (with its chain and index), of a handler, a splitter, a
  candidate of a split handler or the fallback, and each call of \<^verbatim>\<open>emitter.emit\<close>. An
  \<open>error\<close> event reaches the registered listeners; when there is none, \<^verbatim>\<open>emit\<close> throws
  the error instead.
\<close>

datatype scope = GlobalChain | RouteChain | MethodChain

datatype traceEvent =
    RanMiddleware scope nat
  | CalledHandler
  | CalledSplitter
  | CalledCandidate nat
  | CalledFallback
  | EmittedRequest
  | EmittedError toldiError
  | ThrewError toldiError

section \<open>The middleware chain executor\<close>

text \<open>
  \<^verbatim>\<open>execMiddlewares\<close> resolves at once for an empty list; otherwise it sets \<open>i\<close> to \<open>0\<close> and
  calls \<^verbatim>\<open>middlewares[0]\<close> with the continuation \<^verbatim>\<open>callNext\<close>. Every call of \<^verbatim>\<open>callNext\<close>
  increments the shared counter \<open>i\<close>; it resolves the promise when \<open>i\<close> reaches the length
  and otherwise calls \<^verbatim>\<open>middlewares[i]\<close> with itself, which throws a \<^verbatim>\<open>TypeError\<close> once
  \<open>i\<close> is beyond the length. Nothing limits how often a middleware calls it.

  A middleware is a function from the state to the new state and the number of times it
  invokes its continuation after its own work. All calls of \<^verbatim>\<open>callNext\<close> do the same, so
  the calls that are still to come are a number, \<open>pending\<close>. \<open>callNextLoop\<close> performs them
  one after the other; the boolean tells whether the promise is resolved. The
  \<^verbatim>\<open>TypeError\<close> unwinds the calls that are still pending.
\<close>

function callNextLoop ::
  "scope \<Rightarrow> ('u \<Rightarrow> 'u \<times> nat) list \<Rightarrow> nat \<Rightarrow> nat \<Rightarrow> 'u \<Rightarrow> traceEvent list \<Rightarrow> bool \<Rightarrow>
   'u \<times> traceEvent list \<times> bool" where
  "callNextLoop sc mws pending i u tr resolved =
     (if pending = 0 then (u, tr, resolved)
      else if i + 1 = length mws then callNextLoop sc mws (pending - 1) (i + 1) u tr True
      else if i + 1 < length mws then
        (case (mws ! (i + 1)) u of
           (u', invocations) \<Rightarrow>
             callNextLoop sc mws (pending - 1 + invocations) (i + 1) u'
               (tr @ [RanMiddleware sc (i + 1)]) resolved)
      else (u, tr, resolved))"
  by pat_completeness auto
termination
  by (relation "measure (\<lambda>(sc, mws, pending, i, u, tr, resolved). length mws + 1 - i)") auto

declare callNextLoop.simps [simp del]

definition execMiddlewares :: "scope \<Rightarrow> ('u \<Rightarrow> 'u \<times> nat) list \<Rightarrow> 'u \<times> traceEvent list \<Rightarrow>
    ('u \<times> traceEvent list) \<times> bool" where
  "execMiddlewares sc mws s =
     (if length mws = 0 then (s, True)
      else (case s of (u, tr) \<Rightarrow>
        (case (mws ! 0) u of
           (u', invocations) \<Rightarrow>
             (case callNextLoop sc mws invocations 0 u' (tr @ [RanMiddleware sc 0]) False of
                (u'', tr'', resolved) \<Rightarrow> ((u'', tr''), resolved)))))"

section \<open>Handler entries at dispatch time\<close>

text \<open>
  \<^verbatim>\<open>Handler.handle\<close> calls the handler. \<^verbatim>\<open>SplitHandler.handle\<close> awaits the splitter's
  result; when it is not below the number of handlers or is negative it emits an error,
  writes the head \<open>500\<close> and ends the response with \<^verbatim>\<open>responses["500"]\<close>; otherwise it
  calls the handler at that index. The error is emitted first: without a listener for
  \<open>error\<close> (there is none until \<^verbatim>\<open>addEventListener\<close> registers one) \<^verbatim>\<open>emit\<close> throws and
  nothing is written. \<open>errorListeners\<close> is the number of registered listeners.
\<close>

definition respond :: "nat \<Rightarrow> string option \<Rightarrow> response \<Rightarrow> response" where
  "respond status body res = res\<lparr>written := written res @ [WriteHead status ''text/html'', End body]\<rparr>"

fun handle ::
  "nat \<Rightarrow> (string \<rightharpoonup> string) \<Rightarrow>
   (('n, 'x) handlerFn, ('n, 'x) splitterFn, ('n, 'x) middlewareFn) handlerEntry \<Rightarrow>
   ('n, 'x) exchange \<times> traceEvent list \<Rightarrow> ('n, 'x) exchange \<times> traceEvent list" where
  "handle errorListeners responses (Handler h ms) (u, tr) = (h u, tr @ [CalledHandler])"
| "handle errorListeners responses (SplitHandler splitter hs ms) (u, tr) =
     (case splitter u of
        ((req, res), result) \<Rightarrow>
          if result \<ge> int (length hs) \<or> result < 0 then
            (if errorListeners = 0 then
               ((req, res), tr @ [CalledSplitter, ThrewError (SplitterOutOfRange result)])
             else
               ((req, respond 500 (responses ''500'') res),
                tr @ [CalledSplitter, EmittedError (SplitterOutOfRange result)]))
          else ((hs ! nat result) (req, res), tr @ [CalledSplitter, CalledCandidate (nat result)]))"

section \<open>The request handler\<close>

text \<open>
  The router's state: the route table, the global middlewares, the fallback handler, the
  table of response texts and the number of listeners registered for \<open>error\<close>.
  \<^verbatim>\<open>requestHandler\<close> sets \<^verbatim>\<open>req.path\<close> from the URL's pathname, emits \<open>request\<close>, runs the
  global middlewares, searches the table, and for the selected route runs the route's
  middlewares, the entry's middlewares and the entry itself; without a selected route it
  calls the fallback when there is one. Each \<^verbatim>\<open>await\<close> of a chain that does not resolve
  ends the processing of the request. The \<open>response\<close> event is emitted by the transport's
  \<open>finish\<close> and is not part of the trace. The runtime's \<^verbatim>\<open>parse(url).pathname\<close> and
  \<^verbatim>\<open>toUpperCase\<close> are the parameters \<open>pathnameOf\<close> and \<open>toUpperCase\<close>.
\<close>

record ('n, 'x) router =
  routes :: "(('n, 'x) handlerFn, ('n, 'x) splitterFn, ('n, 'x) middlewareFn) routeTable"
  globalMiddlewares :: "('n, 'x) middlewareFn list"
  fallback :: "('n, 'x) handlerFn option"
  responses :: "string \<rightharpoonup> string"
  errorListeners :: nat

text \<open>The state in which the global chain starts, and the search of the table after it.\<close>

definition startState ::
  "(string \<Rightarrow> string) \<Rightarrow> ('n, 'x) exchange \<Rightarrow> ('n, 'x) exchange \<times> traceEvent list" where
  "startState pathnameOf ex =
     (case ex of (req0, res0) \<Rightarrow>
        ((req0\<lparr>reqPath := normalizePath (pathnameOf (url req0))\<rparr>, res0), [EmittedRequest]))"

definition lookupRoute ::
  "(string \<Rightarrow> string) \<Rightarrow>
   (('n, 'x) handlerFn, ('n, 'x) splitterFn, ('n, 'x) middlewareFn) routeTable \<Rightarrow>
   ('n, 'x) exchange \<times> traceEvent list \<Rightarrow>
   ((('n, 'x) handlerFn, ('n, 'x) splitterFn, ('n, 'x) middlewareFn) route \<times>
    (('n, 'x) handlerFn, ('n, 'x) splitterFn, ('n, 'x) middlewareFn) handlerEntry \<times>
    ('n, 'x) exchange \<times> traceEvent list) option" where
  "lookupRoute toUpperCase t s1 =
     (case s1 of ((req, res), tr) \<Rightarrow>
        let upperCaseMethod = toUpperCase (reqMethod req);
            p = reqPath req
        in case t of
             DynamicRoutes rs \<Rightarrow>
               (case dynamicSearch rs (splitWithoutEmptyStrings p CHR ''/'') upperCaseMethod of
                  Some (r, handler, temp) \<Rightarrow>
                    Some (r, handler, ((req\<lparr>reqParams := Some temp\<rparr>, res), tr))
                | None \<Rightarrow> None)
           | StaticRoutes kvs \<Rightarrow>
               (case staticSearch kvs p upperCaseMethod of
                  Some (r, handler) \<Rightarrow> Some (r, handler, s1)
                | None \<Rightarrow> None))"

definition dispatch ::
  "nat \<Rightarrow> (string \<rightharpoonup> string) \<Rightarrow>
   (('n, 'x) handlerFn, ('n, 'x) splitterFn, ('n, 'x) middlewareFn) route \<Rightarrow>
   (('n, 'x) handlerFn, ('n, 'x) splitterFn, ('n, 'x) middlewareFn) handlerEntry \<Rightarrow>
   ('n, 'x) exchange \<times> traceEvent list \<Rightarrow> ('n, 'x) exchange \<times> traceEvent list" where
  "dispatch listeners resps r handler s =
     (case execMiddlewares RouteChain (middlewares r) s of
        (s1, resolved1) \<Rightarrow>
          if \<not> resolved1 then s1
          else (case execMiddlewares MethodChain (entryMiddlewares handler) s1 of
                  (s2, resolved2) \<Rightarrow>
                    if \<not> resolved2 then s2 else handle listeners resps handler s2))"

definition callFallback ::
  "('n, 'x) handlerFn option \<Rightarrow> ('n, 'x) exchange \<times> traceEvent list \<Rightarrow>
   ('n, 'x) exchange \<times> traceEvent list" where
  "callFallback fb s =
     (case fb of None \<Rightarrow> s | Some f \<Rightarrow> (f (fst s), snd s @ [CalledFallback]))"

definition requestHandler ::
  "(string \<Rightarrow> string) \<Rightarrow> (string \<Rightarrow> string) \<Rightarrow> ('n, 'x) router \<Rightarrow> ('n, 'x) exchange \<Rightarrow>
   ('n, 'x) exchange \<times> traceEvent list" where
  "requestHandler pathnameOf toUpperCase rtr ex =
     (case execMiddlewares GlobalChain (globalMiddlewares rtr) (startState pathnameOf ex) of
        (s1, resolved) \<Rightarrow>
          if \<not> resolved then s1
          else (case lookupRoute toUpperCase (routes rtr) s1 of
                  Some (r, handler, s1') \<Rightarrow>
                    dispatch (errorListeners rtr) (responses rtr) r handler s1'
                | None \<Rightarrow> callFallback (fallback rtr) s1))"

section \<open>The field parsers\<close>

text \<open>
  Both parsers scan the input once with the locals \<^verbatim>\<open>keyBuffer\<close>, \<^verbatim>\<open>valueBuffer\<close> and
  \<^verbatim>\<open>readingKey\<close> and the object they fill (\<^verbatim>\<open>query\<close>, \<^verbatim>\<open>cookies\<close>), here \<open>entries\<close>.
\<close>

record 'n parserState =
  entries :: "string \<rightharpoonup> 'n jsValue"
  keyBuffer :: string
  valueBuffer :: string
  readingKey :: bool

definition initialState :: "'n parserState" where
  "initialState = \<lparr>entries = Map.empty, keyBuffer = [], valueBuffer = [], readingKey = True\<rparr>"

definition appendChar :: "char \<Rightarrow> 'n parserState \<Rightarrow> 'n parserState" where
  "appendChar c st =
     (if readingKey st then st\<lparr>keyBuffer := keyBuffer st @ [c]\<rparr>
      else st\<lparr>valueBuffer := valueBuffer st @ [c]\<rparr>)"

text \<open>
  The value stored for a key. With \<open>convertValues\<close> the query parser turns \<open>true\<close> and the
  empty value into \<^verbatim>\<open>true\<close>, \<open>false\<close> into \<^verbatim>\<open>false\<close>, a value that \<^verbatim>\<open>Number\<close> accepts into
  that number, and keeps any other value as a string; the cookie parser does the same
  except that the empty value is left to \<^verbatim>\<open>Number\<close>.
\<close>

definition queryValue :: "(string \<Rightarrow> 'n option) \<Rightarrow> bool \<Rightarrow> string \<Rightarrow> 'n jsValue" where
  "queryValue toNumber convertValues v =
     (if convertValues then
        (if v = ''true'' \<or> v = [] then JBool True
         else if v = ''false'' then JBool False
         else (case toNumber v of Some num \<Rightarrow> JNum num | None \<Rightarrow> JStr v))
      else JStr v)"

definition cookieValue :: "(string \<Rightarrow> 'n option) \<Rightarrow> string \<Rightarrow> 'n jsValue" where
  "cookieValue toNumber v =
     (if v = ''true'' then JBool True
      else if v = ''false'' then JBool False
      else (case toNumber v of Some num \<Rightarrow> JNum num | None \<Rightarrow> JStr v))"

definition storeEntry :: "'n jsValue \<Rightarrow> 'n parserState \<Rightarrow> 'n parserState" where
  "storeEntry v st =
     \<lparr>entries = (entries st)(keyBuffer st \<mapsto> v), keyBuffer = [], valueBuffer = [], readingKey = True\<rparr>"

text \<open>
  The test \<^verbatim>\<open>/^([0-9a-fA-F]){2,2}$/\<close> on the two characters after a percent sign, and the
  value of \<^verbatim>\<open>Number("0x" + hex)\<close>.
\<close>

definition hexDigit :: "char \<Rightarrow> nat option" where
  "hexDigit c =
     (let n = (of_char c :: nat) in
      if 48 \<le> n \<and> n \<le> 57 then Some (n - 48)
      else if 65 \<le> n \<and> n \<le> 70 then Some (n - 55)
      else if 97 \<le> n \<and> n \<le> 102 then Some (n - 87)
      else None)"

definition charCode :: "char \<Rightarrow> char \<Rightarrow> nat option" where
  "charCode h1 h2 =
     (case hexDigit h1 of
        None \<Rightarrow> None
      | Some a \<Rightarrow> (case hexDigit h2 of None \<Rightarrow> None | Some b \<Rightarrow> Some (16 * a + b)))"

text \<open>
  The loop of \<^verbatim>\<open>parseQuery\<close> over the characters from index \<open>i\<close> on; \<open>None\<close> is the
  early \<^verbatim>\<open>return null\<close>. A percent sign reads the next two characters (an index past the
  end reads \<^verbatim>\<open>undefined\<close>, which fails the test) and skips them.
\<close>

fun parseQueryLoop ::
  "(string \<Rightarrow> 'n option) \<Rightarrow> bool \<Rightarrow> string \<Rightarrow> 'n parserState \<Rightarrow> 'n parserState option" where
  "parseQueryLoop toNumber convertValues [] st = Some st"
| "parseQueryLoop toNumber convertValues (c # cs) st =
     (if c = CHR ''='' then
        (if keyBuffer st = [] then None
         else parseQueryLoop toNumber convertValues cs (st\<lparr>readingKey := False\<rparr>))
      else if c = CHR ''&'' \<or> c = CHR '';'' then
        (if keyBuffer st = [] then None
         else parseQueryLoop toNumber convertValues cs
                (storeEntry (queryValue toNumber convertValues (valueBuffer st)) st))
      else if c = CHR ''%'' then
        (case cs of
           h1 # h2 # rest \<Rightarrow>
             (case charCode h1 h2 of
                None \<Rightarrow> None
              | Some code \<Rightarrow> parseQueryLoop toNumber convertValues rest (appendChar (char_of code) st))
         | _ \<Rightarrow> None)
      else parseQueryLoop toNumber convertValues cs (appendChar c st))"

definition parseQuery ::
  "(string \<Rightarrow> 'n option) \<Rightarrow> string \<Rightarrow> bool \<Rightarrow> (string \<rightharpoonup> 'n jsValue) option" where
  "parseQuery toNumber queryString convertValues =
     (case parseQueryLoop toNumber convertValues queryString initialState of
        None \<Rightarrow> None
      | Some st \<Rightarrow>
          if keyBuffer st = [] then None
          else Some ((entries st)(keyBuffer st \<mapsto> queryValue toNumber convertValues (valueBuffer st))))"

text \<open>
  The loop of \<^verbatim>\<open>cookieParser\<close>: \<open>=\<close> ends the key only while a key is being read, \<open>;\<close>
  stores the entry and skips the character after it, every other character is appended.
\<close>

fun cookieLoop :: "(string \<Rightarrow> 'n option) \<Rightarrow> string \<Rightarrow> 'n parserState \<Rightarrow> 'n parserState option" where
  "cookieLoop toNumber [] st = Some st"
| "cookieLoop toNumber (c # cs) st =
     (if readingKey st \<and> c = CHR ''='' then
        (if keyBuffer st = [] then None
         else cookieLoop toNumber cs (st\<lparr>readingKey := False\<rparr>))
      else if c = CHR '';'' then
        (if keyBuffer st = [] then None
         else (case cs of
                 [] \<Rightarrow> Some (storeEntry (cookieValue toNumber (valueBuffer st)) st)
               | skipped # rest \<Rightarrow>
                   cookieLoop toNumber rest (storeEntry (cookieValue toNumber (valueBuffer st)) st)))
      else cookieLoop toNumber cs (appendChar c st))"

definition parseCookies :: "(string \<Rightarrow> 'n option) \<Rightarrow> string \<Rightarrow> (string \<rightharpoonup> 'n jsValue) option" where
  "parseCookies toNumber cookieString =
     (case cookieLoop toNumber cookieString initialState of
        None \<Rightarrow> None
      | Some st \<Rightarrow>
          if last cookieString \<noteq> CHR '';'' then
            (if valueBuffer st = [] \<or> keyBuffer st = [] then None
             else Some ((entries st)(keyBuffer st \<mapsto> cookieValue toNumber (valueBuffer st))))
          else Some (entries st))"

text \<open>
  The two middlewares. \<^verbatim>\<open>queryParser\<close> calls \<open>done\<close> at once when the URL has no question
  mark; otherwise it parses what follows the first one, answers \<open>400\<close> on \<^verbatim>\<open>null\<close>, and
  else sets \<^verbatim>\<open>req.query\<close>. \<^verbatim>\<open>cookieParser\<close> sets \<^verbatim>\<open>req.cookies\<close> to the empty object
  when the header is missing or empty, answers \<open>400\<close> on a syntax error, and else sets
  \<^verbatim>\<open>req.cookies\<close>. The answer's body is \<^verbatim>\<open>responses[key] || "400"\<close>. Each of them
  calls \<open>done\<close> at most once, so a boolean tells whether it did; \<open>asMiddleware\<close> turns it
  into the number of invocations.
\<close>

definition asMiddleware :: "('u \<Rightarrow> 'u \<times> bool) \<Rightarrow> 'u \<Rightarrow> 'u \<times> nat" where
  "asMiddleware p u = (case p u of (u', invoked) \<Rightarrow> (u', if invoked then 1 else 0))"

definition responseText :: "(string \<rightharpoonup> string) \<Rightarrow> string \<Rightarrow> string" where
  "responseText resps key =
     (case resps key of None \<Rightarrow> ''400'' | Some txt \<Rightarrow> if txt = [] then ''400'' else txt)"

definition queryParser ::
  "(string \<Rightarrow> 'n option) \<Rightarrow> (string \<rightharpoonup> string) \<Rightarrow>
   ('n, 'x) exchange \<Rightarrow> ('n, 'x) exchange \<times> bool" where
  "queryParser toNumber resps ex =
     (case ex of (req, res) \<Rightarrow>
        if CHR ''?'' \<notin> set (url req) then ((req, res), True)
        else
          let queryString = drop 1 (dropWhile (\<lambda>c. c \<noteq> CHR ''?'') (url req)) in
          case parseQuery toNumber queryString True of
            None \<Rightarrow> ((req, respond 400 (Some (responseText resps ''400q'')) res), False)
          | Some q \<Rightarrow> ((req\<lparr>query := Some q\<rparr>, res), True))"

definition cookieParser ::
  "(string \<Rightarrow> 'n option) \<Rightarrow> (string \<rightharpoonup> string) \<Rightarrow>
   ('n, 'x) exchange \<Rightarrow> ('n, 'x) exchange \<times> bool" where
  "cookieParser toNumber resps ex =
     (case ex of (req, res) \<Rightarrow>
        (case cookieHeader req of
           None \<Rightarrow> ((req\<lparr>cookies := Some Map.empty\<rparr>, res), True)
         | Some cookieString \<Rightarrow>
             if cookieString = [] then ((req\<lparr>cookies := Some Map.empty\<rparr>, res), True)
             else (case parseCookies toNumber cookieString of
                     None \<Rightarrow> ((req, respond 400 (Some (responseText resps ''400c'')) res), False)
                   | Some cs \<Rightarrow> ((req\<lparr>cookies := Some cs\<rparr>, res), True))))"

text \<open>
  A conversion for evaluating the parsers on examples: it accepts the unsigned decimal
  numerals (and the empty string, which \<^verbatim>\<open>Number\<close> reads as zero) and nothing else.
\<close>

definition digitValue :: "char \<Rightarrow> nat option" where
  "digitValue c = (let n = (of_char c :: nat) in if 48 \<le> n \<and> n \<le> 57 then Some (n - 48) else None)"

fun decimalLoop :: "string \<Rightarrow> nat \<Rightarrow> nat option" where
  "decimalLoop [] acc = Some acc"
| "decimalLoop (c # cs) acc =
     (case digitValue c of None \<Rightarrow> None | Some d \<Rightarrow> decimalLoop cs (10 * acc + d))"

definition decimalNumber :: "string \<Rightarrow> nat option" where
  "decimalNumber v = decimalLoop v 0"

section \<open>Observations on a chain and on a trace\<close>

text \<open>
  A run of a chain in which every middleware that runs invokes its continuation at most
  once: \<open>firstHalt\<close> is the index of the first middleware that, on the state it receives,
  does not invoke the continuation, all middlewares before it invoking it once;
  \<open>allContinueOnce\<close> says that every middleware, on the state it receives, invokes it once;
  \<open>stateAfter\<close> is the state the middlewares leave one after the other.
\<close>

fun firstHalt :: "('u \<Rightarrow> 'u \<times> nat) list \<Rightarrow> 'u \<Rightarrow> nat option" where
  "firstHalt [] u = None"
| "firstHalt (mw # rest) u =
     (case mw u of
        (u', invocations) \<Rightarrow>
          if invocations = 0 then Some 0
          else if invocations = 1 then map_option Suc (firstHalt rest u')
          else None)"

fun allContinueOnce :: "('u \<Rightarrow> 'u \<times> nat) list \<Rightarrow> 'u \<Rightarrow> bool" where
  "allContinueOnce [] u = True"
| "allContinueOnce (mw # rest) u =
     (case mw u of (u', invocations) \<Rightarrow> invocations = 1 \<and> allContinueOnce rest u')"

fun stateAfter :: "('u \<Rightarrow> 'u \<times> nat) list \<Rightarrow> 'u \<Rightarrow> 'u" where
  "stateAfter [] u = u"
| "stateAfter (mw # rest) u = stateAfter rest (fst (mw u))"

text \<open>
  A middleware never continues when on no state it invokes its continuation, and
  continues at most once when on no state it invokes it twice. The handler calls of a
  trace are the calls of a handler, a splitter, a candidate of a split handler or the
  fallback; its error notifications are the \<open>error\<close> events that reached a listener.
\<close>

definition neverContinues :: "('u \<Rightarrow> 'u \<times> nat) \<Rightarrow> bool" where
  "neverContinues mw = (\<forall>u. snd (mw u) = 0)"

definition atMostOnce :: "('u \<Rightarrow> 'u \<times> nat) \<Rightarrow> bool" where
  "atMostOnce mw = (\<forall>u. snd (mw u) \<le> 1)"

fun isHandlerCall :: "traceEvent \<Rightarrow> bool" where
  "isHandlerCall CalledHandler = True"
| "isHandlerCall CalledSplitter = True"
| "isHandlerCall (CalledCandidate k) = True"
| "isHandlerCall CalledFallback = True"
| "isHandlerCall e = False"

definition handlerCalls :: "traceEvent list \<Rightarrow> nat" where
  "handlerCalls tr = length (filter isHandlerCall tr)"

fun isErrorNotification :: "traceEvent \<Rightarrow> bool" where
  "isErrorNotification (EmittedError e) = True"
| "isErrorNotification e = False"

definition errorNotifications :: "traceEvent list \<Rightarrow> nat" where
  "errorNotifications tr = length (filter isErrorNotification tr)"

fun isCandidateCall :: "traceEvent \<Rightarrow> bool" where
  "isCandidateCall (CalledCandidate k) = True"
| "isCandidateCall e = False"

definition candidateCalls :: "traceEvent list \<Rightarrow> nat" where
  "candidateCalls tr = length (filter isCandidateCall tr)"

text \<open>
  The two characters after a percent sign form an escape when both are hexadecimal
  digits.
\<close>

definition validEscape :: "string \<Rightarrow> bool" where
  "validEscape rest = (case rest of h1 # h2 # rest' \<Rightarrow> charCode h1 h2 \<noteq> None | _ \<Rightarrow> False)"

section \<open>Example data\<close>

text \<open>A \<open>GET\<close> request for \<open>/a\<close> without a \<open>Cookie\<close> header, and a response nothing was written to.\<close>

definition exampleRequest :: "(nat, unit) request" where
  "exampleRequest =
     \<lparr>url = ''/a'', reqMethod = ''GET'', cookieHeader = None, reqPath = [], reqParams = None,
      query = None, cookies = None, user = ()\<rparr>"

definition emptyResponse :: response where
  "emptyResponse = \<lparr>written = []\<rparr>"

text \<open>
  A stand-in for \<^verbatim>\<open>parse(url).pathname\<close> on the example URLs, and a router with the query
  parser as its global middleware and one route \<open>/a\<close> whose \<open>GET\<close> handler has one
  middleware of its own; the route's middlewares are the argument.
\<close>

definition pathnameUpToQuery :: "string \<Rightarrow> string" where
  "pathnameUpToQuery u = takeWhile (\<lambda>c. c \<noteq> CHR ''?'') u"

definition exampleRouter :: "(nat, unit) middlewareFn list \<Rightarrow> (nat, unit) router" where
  "exampleRouter routeMiddlewares =
     \<lparr>routes = DynamicRoutes
        [\<lparr>path = ''/a'', handlers = [''GET'' \<mapsto> Handler (\<lambda>u. u) [\<lambda>u. (u, 1)]],
          middlewares = routeMiddlewares\<rparr>],
      globalMiddlewares = [asMiddleware (queryParser decimalNumber Map.empty)],
      fallback = None, responses = Map.empty, errorListeners = 0\<rparr>"

section \<open>Properties of the tokenizer\<close>

lemma pieces_not_Nil: "pieces separator cs \<noteq> []"
  by (induction cs) (auto split: list.splits)

lemma prependBuffer_Nil: "prependBuffer [] (pieces separator cs) = pieces separator cs"
  by (cases "pieces separator cs") (auto simp: pieces_not_Nil)

text \<open>
  The loop invariant when no two separators are adjacent: an empty buffer after index
  \<open>0\<close> means the previous character was a separator, so the next one is not.
\<close>

lemma splitLoop_collapses:
  "no_adjacent sep cs \<Longrightarrow> (buffer = [] \<and> 0 < i \<longrightarrow> cs = [] \<or> hd cs \<noteq> sep) \<Longrightarrow>
   (case splitLoop sep n i cs buffer result of (r, b) \<Rightarrow> if b \<noteq> [] then r @ [b] else r)
     = result @ filter (\<lambda>s. s \<noteq> []) (prependBuffer buffer (pieces sep cs))"
proof (induction cs arbitrary: i buffer result)
  case Nil
  then show ?case by simp
next
  case (Cons c cs)
  have na: "no_adjacent sep cs" using Cons.prems(1) by (cases cs) auto
  show ?case
  proof (cases "c = sep")
    case True
    have nxt: "cs = [] \<or> hd cs \<noteq> sep" using Cons.prems(1) True by (cases cs) auto
    have first: "buffer = [] \<Longrightarrow> i = 0" using Cons.prems(2) True by auto
    have "(case splitLoop sep n (i + 1) cs []
             (if \<not> (buffer = [] \<and> (i = 0 \<or> i = n - 1)) then result @ [buffer] else result) of
             (r, b) \<Rightarrow> if b \<noteq> [] then r @ [b] else r)
       = (if \<not> (buffer = [] \<and> (i = 0 \<or> i = n - 1)) then result @ [buffer] else result)
           @ filter (\<lambda>s. s \<noteq> []) (prependBuffer [] (pieces sep cs))"
      by (rule Cons.IH[OF na]) (use nxt in simp)
    then show ?thesis using True first
      by (cases "pieces sep cs") (auto simp: pieces_not_Nil)
  next
    case False
    have "(case splitLoop sep n (i + 1) cs (buffer @ [c]) result of
             (r, b) \<Rightarrow> if b \<noteq> [] then r @ [b] else r)
       = result @ filter (\<lambda>s. s \<noteq> []) (prependBuffer (buffer @ [c]) (pieces sep cs))"
      by (rule Cons.IH[OF na]) simp
    then show ?thesis using False
      by (cases "pieces sep cs") (auto simp: pieces_not_Nil)
  qed
qed

lemma split_refines_spec:
  assumes "no_adjacent sep data"
  shows "splitWithoutEmptyStrings data sep = collapsing_split_spec data sep"
proof -
  obtain r b where rb: "splitLoop sep (length data) 0 data [] [] = (r, b)"
    by (cases "splitLoop sep (length data) 0 data [] []") auto
  have "(if b \<noteq> [] then r @ [b] else r) = filter (\<lambda>s. s \<noteq> []) (pieces sep data)"
    using splitLoop_collapses[OF assms, of "[]" 0 "length data" "[]"] rb
    by (simp add: prependBuffer_Nil)
  then show ?thesis
    by (simp add: splitWithoutEmptyStrings_def collapsing_split_spec_def rb Let_def)
qed

lemma spec_segments_nonempty:
  "data \<noteq> [] \<Longrightarrow> [] \<notin> set (collapsing_split_spec data sep)"
  by (auto simp: collapsing_split_spec_def Let_def)

lemma split_result_not_Nil: "splitWithoutEmptyStrings data sep \<noteq> []"
  by (auto simp: splitWithoutEmptyStrings_def Let_def split: prod.splits)

lemma dropLastEmpty_Cons: "ps \<noteq> [] \<Longrightarrow> dropLastEmpty (b # ps) = b # dropLastEmpty ps"
  by (simp add: dropLastEmpty_def)

lemma dropLastEmpty_twice_Cons:
  "ps \<noteq> [] \<Longrightarrow> ps \<noteq> [[]] \<Longrightarrow>
   dropLastEmpty (dropLastEmpty (b # ps)) = b # dropLastEmpty (dropLastEmpty ps)"
proof -
  assume a: "ps \<noteq> []" "ps \<noteq> [[]]"
  have "dropLastEmpty ps \<noteq> []"
    using a by (cases ps rule: rev_cases) (auto simp: dropLastEmpty_def)
  then show ?thesis using a by (simp add: dropLastEmpty_Cons)
qed

lemma pieces_single: "cs \<noteq> [] \<Longrightarrow> pieces sep cs \<noteq> [[]]"
  by (cases cs) (auto split: list.splits simp: pieces_not_Nil)

text \<open>
  From index \<open>1\<close> on the loop keeps every piece but the last two, which it drops when they
  are empty.
\<close>

lemma splitLoop_tail:
  "0 < i \<Longrightarrow> i + length cs = n \<Longrightarrow>
   (case splitLoop sep n i cs buffer result of (r, b) \<Rightarrow> if b \<noteq> [] then r @ [b] else r)
     = result @ dropLastEmpty (dropLastEmpty (prependBuffer buffer (pieces sep cs)))"
proof (induction cs arbitrary: i buffer result)
  case Nil
  then show ?case by (simp add: dropLastEmpty_def)
next
  case (Cons c cs)
  have i1: "0 < i + 1" and n1: "i + 1 + length cs = n" using Cons.prems by simp_all
  show ?case
  proof (cases "c = sep")
    case False
    have "(case splitLoop sep n (i + 1) cs (buffer @ [c]) result of
             (r, b) \<Rightarrow> if b \<noteq> [] then r @ [b] else r)
       = result @ dropLastEmpty (dropLastEmpty (prependBuffer (buffer @ [c]) (pieces sep cs)))"
      by (rule Cons.IH[OF i1 n1])
    then show ?thesis using False
      by (cases "pieces sep cs") (auto simp: pieces_not_Nil)
  next
    case True
    let ?res = "if \<not> (buffer = [] \<and> (i = 0 \<or> i = n - 1)) then result @ [buffer] else result"
    have ih: "(case splitLoop sep n (i + 1) cs [] ?res of
             (r, b) \<Rightarrow> if b \<noteq> [] then r @ [b] else r)
       = ?res @ dropLastEmpty (dropLastEmpty (pieces sep cs))"
      using Cons.IH[OF i1 n1, of "[]" ?res] by (simp add: prependBuffer_Nil)
    show ?thesis
    proof (cases "cs = []")
      case True
      then have "i = n - 1" using Cons.prems by simp
      then show ?thesis using ih \<open>c = sep\<close> True Cons.prems(1)
        by (simp add: dropLastEmpty_def)
    next
      case False
      then have ni: "i \<noteq> n - 1" using Cons.prems by auto
      then have r: "?res = result @ [buffer]" using Cons.prems(1) by simp
      have "dropLastEmpty (dropLastEmpty (buffer # pieces sep cs))
          = buffer # dropLastEmpty (dropLastEmpty (pieces sep cs))"
        by (rule dropLastEmpty_twice_Cons[OF pieces_not_Nil pieces_single[OF False]])
      then show ?thesis using ih \<open>c = sep\<close> ni Cons.prems(1) unfolding r by simp
    qed
  qed
qed

lemma splitLoop_whole:
  "(case splitLoop sep (length data) 0 data [] [] of (r, b) \<Rightarrow> if b \<noteq> [] then r @ [b] else r)
     = dropLastEmpty (dropLastEmpty (dropFirstEmpty (pieces sep data)))"
proof (cases data)
  case Nil
  then show ?thesis by (simp add: dropFirstEmpty_def dropLastEmpty_def)
next
  case (Cons c cs)
  have t: "(case splitLoop sep (length data) 1 cs buffer [] of (r, b) \<Rightarrow> if b \<noteq> [] then r @ [b] else r)
     = dropLastEmpty (dropLastEmpty (prependBuffer buffer (pieces sep cs)))" for buffer
    using splitLoop_tail[of 1 cs "length data" sep buffer "[]"] Cons by simp
  show ?thesis
  proof (cases "c = sep")
    case True
    then show ?thesis using t[of "[]"] Cons
      by (simp add: dropFirstEmpty_def prependBuffer_Nil)
  next
    case False
    then show ?thesis using t[of "[c]"] Cons
      by (cases "pieces sep cs") (auto simp: dropFirstEmpty_def pieces_not_Nil)
  qed
qed

lemma split_as_pieces:
  "splitWithoutEmptyStrings data sep =
     (let segs = dropLastEmpty (dropLastEmpty (dropFirstEmpty (pieces sep data)))
      in if segs = [] then [data] else segs)"
proof -
  obtain r b where rb: "splitLoop sep (length data) 0 data [] [] = (r, b)"
    by (cases "splitLoop sep (length data) 0 data [] []") auto
  have "(if b \<noteq> [] then r @ [b] else r)
      = dropLastEmpty (dropLastEmpty (dropFirstEmpty (pieces sep data)))"
    using splitLoop_whole[of sep data] rb by simp
  then show ?thesis
    by (simp add: splitWithoutEmptyStrings_def rb Let_def)
qed

lemma pieces_snoc: "pieces sep (xs @ [sep]) = pieces sep xs @ [[]]"
  by (induction xs) (auto split: list.splits simp: pieces_not_Nil)

lemma pieces_hd: "core \<noteq> [] \<Longrightarrow> hd core \<noteq> sep \<Longrightarrow> hd (pieces sep core) \<noteq> []"
  by (cases core) (auto split: list.splits)

lemma pieces_last: "core \<noteq> [] \<Longrightarrow> last core \<noteq> sep \<Longrightarrow> last (pieces sep core) \<noteq> []"
proof (induction core)
  case Nil
  then show ?case by simp
next
  case (Cons c cs)
  show ?case
  proof (cases "cs = []")
    case True
    then show ?thesis using Cons.prems by simp
  next
    case False
    then have "last (pieces sep cs) \<noteq> []" using Cons by simp
    then show ?thesis using False
      by (cases "pieces sep cs") (auto simp: pieces_not_Nil split: if_splits)
  qed
qed

lemma split_core:
  assumes "lead = [] \<or> lead = [sep]"
    and "trail = [] \<or> trail = [sep] \<or> trail = [sep, sep]"
    and "core \<noteq> []" "hd core \<noteq> sep" "last core \<noteq> sep"
  shows "splitWithoutEmptyStrings (lead @ core @ trail) sep = pieces sep core"
proof -
  let ?P = "pieces sep core"
  have ne: "?P \<noteq> []" by (rule pieces_not_Nil)
  have h: "hd ?P \<noteq> []" by (rule pieces_hd[OF assms(3,4)])
  have l: "last ?P \<noteq> []" by (rule pieces_last[OF assms(3,5)])
  have tr: "pieces sep (core @ trail) = ?P @ map (\<lambda>c. []) trail"
    using assms(2) pieces_snoc[of sep core] pieces_snoc[of sep "core @ [sep]"] by auto
  have ld: "dropFirstEmpty (pieces sep (lead @ core @ trail)) = ?P @ map (\<lambda>c. []) trail"
    using assms(1) tr ne h by (cases ?P) (auto simp: dropFirstEmpty_def)
  have dl: "dropLastEmpty (dropLastEmpty (?P @ map (\<lambda>c. []) trail)) = ?P"
    using assms(2) ne l by (auto simp: dropLastEmpty_def butlast_append)
  show ?thesis using ld dl ne by (simp add: split_as_pieces)
qed

lemma split_only_separators:
  "splitWithoutEmptyStrings [] sep = [[]]"
  "splitWithoutEmptyStrings [sep] sep = [[sep]]"
  "splitWithoutEmptyStrings [sep, sep] sep = [[sep, sep]]"
  by (simp_all add: splitWithoutEmptyStrings_def)

lemma pieces_append: "pieces sep (xs @ sep # ys) = pieces sep xs @ pieces sep ys"
  by (induction xs) (auto split: list.splits simp: pieces_not_Nil)

lemma pieces_no_separator: "sep \<notin> set xs \<Longrightarrow> pieces sep xs = [xs]"
  by (induction xs) auto

text \<open>
  Claim C4, as the code has it. An input made of at most one leading separator, a
  non-empty core that neither begins nor ends with the separator, and at most two
  trailing separators is tokenized to the plain split of the core at every separator:
  the separators at the two ends produce no segment, and two adjacent separators inside
  the core are not collapsed but produce an empty segment. The plain split cuts at every
  separator and leaves a string without separators whole. The empty input, the
  separator alone and two separators give the one-element list of the input. So for
  every input in which no two separators are adjacent the tokenizer is the
  delimiter-collapsing split, and no segment is empty unless the input is. The result is
  never the empty list, and the three examples of the specification hold.
\<close>

theorem splitWithoutEmptyStrings_collapsing:
  "((lead = [] \<or> lead = [separator])
      \<and> (trail = [] \<or> trail = [separator] \<or> trail = [separator, separator])
      \<and> core \<noteq> [] \<and> hd core \<noteq> separator \<and> last core \<noteq> separator \<longrightarrow>
      splitWithoutEmptyStrings (lead @ core @ trail) separator = pieces separator core)
   \<and> pieces separator (xs @ separator # ys) = pieces separator xs @ pieces separator ys
   \<and> (separator \<notin> set xs \<longrightarrow> pieces separator xs = [xs])
   \<and> splitWithoutEmptyStrings [] separator = [[]]
   \<and> splitWithoutEmptyStrings [separator] separator = [[separator]]
   \<and> splitWithoutEmptyStrings [separator, separator] separator = [[separator, separator]]
   \<and> (no_adjacent separator data \<longrightarrow>
      splitWithoutEmptyStrings data separator = collapsing_split_spec data separator \<and>
      (data \<noteq> [] \<longrightarrow> [] \<notin> set (splitWithoutEmptyStrings data separator)))
   \<and> splitWithoutEmptyStrings data separator \<noteq> []
   \<and> splitWithoutEmptyStrings ''/a/b/'' CHR ''/'' = [''a'', ''b'']
   \<and> splitWithoutEmptyStrings ''/'' CHR ''/'' = [''/'']
   \<and> splitWithoutEmptyStrings [] CHR ''/'' = [[]]"
proof (intro conjI impI)
  assume a: "(lead = [] \<or> lead = [separator])
      \<and> (trail = [] \<or> trail = [separator] \<or> trail = [separator, separator])
      \<and> core \<noteq> [] \<and> hd core \<noteq> separator \<and> last core \<noteq> separator"
  then have "lead = [] \<or> lead = [separator]"
    and "trail = [] \<or> trail = [separator] \<or> trail = [separator, separator]"
    and "core \<noteq> []" and "hd core \<noteq> separator" and "last core \<noteq> separator"
    by simp_all
  then show "splitWithoutEmptyStrings (lead @ core @ trail) separator = pieces separator core"
    by (rule split_core)
next
  show "pieces separator (xs @ separator # ys) = pieces separator xs @ pieces separator ys"
    by (rule pieces_append)
next
  assume "separator \<notin> set xs"
  then show "pieces separator xs = [xs]" by (rule pieces_no_separator)
next
  show "splitWithoutEmptyStrings [] separator = [[]]"
    by (rule split_only_separators)
next
  show "splitWithoutEmptyStrings [separator] separator = [[separator]]"
    by (rule split_only_separators)
next
  show "splitWithoutEmptyStrings [separator, separator] separator = [[separator, separator]]"
    by (rule split_only_separators)
next
  assume "no_adjacent separator data"
  then show "splitWithoutEmptyStrings data separator = collapsing_split_spec data separator"
    by (rule split_refines_spec)
next
  assume "no_adjacent separator data" and "data \<noteq> []"
  then show "[] \<notin> set (splitWithoutEmptyStrings data separator)"
    using split_refines_spec[of separator data] spec_segments_nonempty[of data separator] by simp
next
  show "splitWithoutEmptyStrings data separator \<noteq> []"
    by (rule split_result_not_Nil)
next
  show "splitWithoutEmptyStrings ''/a/b/'' CHR ''/'' = [''a'', ''b'']"
    by (simp add: splitWithoutEmptyStrings_def)
next
  show "splitWithoutEmptyStrings ''/'' CHR ''/'' = [''/'']"
    by (simp add: splitWithoutEmptyStrings_def)
next
  show "splitWithoutEmptyStrings [] CHR ''/'' = [[]]"
    by (simp add: splitWithoutEmptyStrings_def)
qed

theorem splitWithoutEmptyStrings_collapsing_witness:
  "splitWithoutEmptyStrings ''/a//b//'' CHR ''/'' = pieces CHR ''/'' ''a//b''
   \<and> pieces CHR ''/'' ''a//b'' = [''a'', [], ''b'']
   \<and> no_adjacent CHR ''/'' ''/users/42/''
   \<and> splitWithoutEmptyStrings ''/users/42/'' CHR ''/'' = collapsing_split_spec ''/users/42/'' CHR ''/''
   \<and> [] \<notin> set (splitWithoutEmptyStrings ''/users/42/'' CHR ''/'')
   \<and> collapsing_split_spec ''/users/42/'' CHR ''/'' = [''users'', ''42'']"
proof -
  have h: "(''/'' = [] \<or> ''/'' = [CHR ''/''])
      \<and> (''//'' = [] \<or> ''//'' = [CHR ''/''] \<or> ''//'' = [CHR ''/'', CHR ''/''])
      \<and> ''a//b'' \<noteq> [] \<and> hd ''a//b'' \<noteq> CHR ''/'' \<and> last ''a//b'' \<noteq> CHR ''/''"
    by simp
  have a: "splitWithoutEmptyStrings ''/a//b//'' CHR ''/'' = pieces CHR ''/'' ''a//b''"
    using splitWithoutEmptyStrings_collapsing[where lead = "''/''" and core = "''a//b''"
        and trail = "''//''" and separator = "CHR ''/''", THEN conjunct1, THEN mp, OF h]
    by (simp only: append.simps)
  have p: "pieces CHR ''/'' ''a//b'' = [''a'', [], ''b'']" by simp
  have n: "no_adjacent CHR ''/'' ''/users/42/''" by simp
  note t = splitWithoutEmptyStrings_collapsing[where separator = "CHR ''/''" and data = "''/users/42/''",
        THEN conjunct2, THEN conjunct2, THEN conjunct2, THEN conjunct2, THEN conjunct2,
        THEN conjunct2, THEN conjunct1, THEN mp, OF n]
  have b: "splitWithoutEmptyStrings ''/users/42/'' CHR ''/'' = collapsing_split_spec ''/users/42/'' CHR ''/''"
    by (rule t[THEN conjunct1])
  have c: "[] \<notin> set (splitWithoutEmptyStrings ''/users/42/'' CHR ''/'')"
    using t[THEN conjunct2] by simp
  have v: "collapsing_split_spec ''/users/42/'' CHR ''/'' = [''users'', ''42'']"
    by (simp add: collapsing_split_spec_def)
  show ?thesis by (rule conjI[OF a conjI[OF p conjI[OF n conjI[OF b conjI[OF c v]]]]])
qed

theorem splitWithoutEmptyStrings_interior_counterexample:
  "splitWithoutEmptyStrings ''a//b'' CHR ''/'' = [''a'', [], ''b''] \<and>
   [] \<in> set (splitWithoutEmptyStrings ''a//b'' CHR ''/'') \<and>
   collapsing_split_spec ''a//b'' CHR ''/'' = [''a'', ''b'']"
  by (simp add: splitWithoutEmptyStrings_def collapsing_split_spec_def)

section \<open>Properties of the route lookup\<close>

lemma tryRoute_eligible_match:
  "tryRoute R m r =
     (if eligible m r \<and> pathMatches R r
      then map_option (\<lambda>h. (h, boundParams R r)) (chosenEntry m r) else None)"
  by (auto simp: tryRoute_def eligible_def pathMatches_def chosenEntry_def boundParams_def Let_def
           split: option.splits)

lemma tryRoute_segment_counts:
  "tryRoute R m r = Some x \<Longrightarrow> length R = length (splitWithoutEmptyStrings (path r) CHR ''/'')"
  by (simp add: tryRoute_eligible_match pathMatches_def split: if_splits)

text \<open>
  Claim C1 fails on the code: the dynamic search compares the segment counts before it
  looks at any segment, so a route with a \<open>*\<close> segment is skipped like every other route
  when the request has a different number of segments. The route \<open>/files/*\<close> does not
  match the request path \<open>/files/a/b/c\<close> (the search falls through to the fallback); it
  matches \<open>/files/a\<close>, which has as many segments as the route.
\<close>

theorem wildcard_route_needs_equal_segment_count:
  "selectHandler
     (DynamicRoutes [\<lparr>path = ''/files/*'', handlers = [''GET'' \<mapsto> Handler (1::nat) []],
                      middlewares = []\<rparr> :: (nat, unit, unit) route])
     ''/files/a/b/c'' ''GET'' = None
   \<and> selectHandler
     (DynamicRoutes [\<lparr>path = ''/files/*'', handlers = [''GET'' \<mapsto> Handler (1::nat) []],
                      middlewares = []\<rparr> :: (nat, unit, unit) route])
     ''/files/a'' ''GET''
     = Some (\<lparr>path = ''/files/*'', handlers = [''GET'' \<mapsto> Handler 1 []], middlewares = []\<rparr>,
             Handler 1 [])"
  by (simp add: selectHandler_def tryRoute_def splitWithoutEmptyStrings_def isParam_def)

text \<open>
  Claim C3 fails on the code: the static search dispatches only when the route has an
  entry for the request's own method. A route found by its exact path that has only the
  \<open>ALL\<close> entry is treated as not found for a \<open>GET\<close> request, while the dynamic search
  selects the \<open>ALL\<close> entry of the same route.
\<close>

theorem static_search_ignores_all_entry:
  "selectHandler
     (StaticRoutes [(''/a'', \<lparr>path = ''/a'', handlers = [''ALL'' \<mapsto> Handler (7::nat) []],
                              middlewares = []\<rparr> :: (nat, unit, unit) route)])
     ''/a'' ''GET'' = None
   \<and> selectHandler
     (DynamicRoutes [\<lparr>path = ''/a'', handlers = [''ALL'' \<mapsto> Handler (7::nat) []],
                      middlewares = []\<rparr> :: (nat, unit, unit) route])
     ''/a'' ''GET''
     = Some (\<lparr>path = ''/a'', handlers = [''ALL'' \<mapsto> Handler 7 []], middlewares = []\<rparr>,
             Handler 7 [])"
  by (simp add: selectHandler_def staticSearch_def tryRoute_def splitWithoutEmptyStrings_def
        isParam_def)



lemma chosenEntry_prefers_method:
  "handlers r m = Some h \<Longrightarrow> chosenEntry m r = Some h"
  by (simp add: chosenEntry_def)



section \<open>Switching the search mode\<close>

lemma matchLoop_literal:
  "\<forall>seg \<in> set P. seg \<noteq> ''*'' \<and> \<not> isParam seg \<Longrightarrow> length R = length P \<Longrightarrow>
   matchLoop R P t = (if R = P then Some t else None)"
  by (induction R P t rule: matchLoop.induct) auto

lemma pathMatches_literal:
  "literalRoute r \<Longrightarrow> pathMatches R r = (R = splitWithoutEmptyStrings (path r) CHR ''/'')"
  unfolding pathMatches_def literalRoute_def
  by (auto simp: matchLoop_literal split: if_splits)

lemma tryRoute_literal:
  assumes "literalRoute r"
  shows "tryRoute R m r =
     (if R = splitWithoutEmptyStrings (path r) CHR ''/''
      then map_option (\<lambda>h. (h, Map.empty)) (chosenEntry m r) else None)"
proof -
  have "\<forall>seg \<in> set (splitWithoutEmptyStrings (path r) CHR ''/''). seg \<noteq> ''*'' \<and> \<not> isParam seg"
    using assms by (simp add: literalRoute_def)
  then have ml: "matchLoop (splitWithoutEmptyStrings (path r) CHR ''/'')
                   (splitWithoutEmptyStrings (path r) CHR ''/'') Map.empty = Some Map.empty"
    by (simp add: matchLoop_literal)
  show ?thesis
    by (cases "chosenEntry m r")
       (auto simp: tryRoute_eligible_match pathMatches_literal[OF assms] boundParams_def ml
                   eligible_def chosenEntry_def split: option.splits)
qed

lemma dynamicSearch_no_literal_match:
  assumes "\<forall>r \<in> set rs. literalRoute r"
    and "\<forall>r \<in> set rs. splitWithoutEmptyStrings (path r) CHR ''/'' \<noteq> R"
  shows "dynamicSearch rs R m = None"
  using assms by (induction rs) (auto simp: tryRoute_literal)

lemma dynamicSearch_literal:
  assumes "distinct (map path rs)"
    and "\<forall>r \<in> set rs. literalRoute r"
    and "\<forall>r \<in> set rs. splitWithoutEmptyStrings (path r) CHR ''/'' = splitWithoutEmptyStrings p CHR ''/''
           \<longrightarrow> path r = p"
    and "\<forall>r \<in> set rs. handlers r ''ALL'' \<noteq> None \<longrightarrow> handlers r m \<noteq> None"
  shows "dynamicSearch rs (splitWithoutEmptyStrings p CHR ''/'') m =
     (case find (\<lambda>r. path r = p) rs of
        None \<Rightarrow> None
      | Some r \<Rightarrow> (case handlers r m of None \<Rightarrow> None | Some h \<Rightarrow> Some (r, h, Map.empty)))"
  using assms
proof (induction rs)
  case Nil
  show ?case by simp
next
  case (Cons r rs)
  have lit: "literalRoute r" using Cons.prems(2) by simp
  show ?case
  proof (cases "path r = p")
    case True
    have others: "\<forall>r' \<in> set rs.
        splitWithoutEmptyStrings (path r') CHR ''/'' \<noteq> splitWithoutEmptyStrings p CHR ''/''"
    proof
      fix r' assume r': "r' \<in> set rs"
      have "path r' \<noteq> p" using Cons.prems(1) True r' by (force simp: image_iff)
      then show "splitWithoutEmptyStrings (path r') CHR ''/'' \<noteq> splitWithoutEmptyStrings p CHR ''/''"
        using Cons.prems(3) r' by auto
    qed
    have none: "dynamicSearch rs (splitWithoutEmptyStrings p CHR ''/'') m = None"
      by (rule dynamicSearch_no_literal_match) (use Cons.prems(2) others in auto)
    have allm: "handlers r m = None \<Longrightarrow> handlers r ''ALL'' = None"
      using Cons.prems(4) by auto
    show ?thesis using True none allm
      by (cases "handlers r m") (auto simp: tryRoute_literal[OF lit] chosenEntry_def)
  next
    case False
    then have "splitWithoutEmptyStrings (path r) CHR ''/'' \<noteq> splitWithoutEmptyStrings p CHR ''/''"
      using Cons.prems(3) by auto
    then have "tryRoute (splitWithoutEmptyStrings p CHR ''/'') m r = None"
      by (auto simp: tryRoute_literal[OF lit])
    moreover have "dynamicSearch rs (splitWithoutEmptyStrings p CHR ''/'') m =
       (case find (\<lambda>r. path r = p) rs of
          None \<Rightarrow> None
        | Some r \<Rightarrow> (case handlers r m of None \<Rightarrow> None | Some h \<Rightarrow> Some (r, h, Map.empty)))"
      by (rule Cons.IH) (use Cons.prems in auto)
    ultimately show ?thesis using False by simp
  qed
qed

lemma map_of_objSet: "map_of (objSet kvs k v) = (map_of kvs)(k \<mapsto> v)"
  by (induction kvs) (auto simp: fun_eq_iff)

lemma objSet_fresh: "k \<notin> fst ` set kvs \<Longrightarrow> objSet kvs k v = kvs @ [(k, v)]"
  by (induction kvs) auto

lemma map_of_toObject:
  "distinct (map path rs) \<Longrightarrow>
   map_of (toObject rs acc) p =
     (case find (\<lambda>r. path r = p) rs of Some r \<Rightarrow> Some r | None \<Rightarrow> map_of acc p)"
proof (induction rs arbitrary: acc)
  case Nil
  show ?case by simp
next
  case (Cons r rs)
  have d: "distinct (map path rs)" using Cons.prems by simp
  have nf: "path r = p \<Longrightarrow> find (\<lambda>r. path r = p) rs = None"
    using Cons.prems by (force simp: find_None_iff image_iff)
  show ?case using Cons.IH[OF d, of "objSet acc (path r) r"] nf
    by (auto simp: map_of_objSet split: option.splits)
qed

lemma map_of_static:
  "\<forall>(k, r) \<in> set kvs. path r = k \<Longrightarrow> map_of kvs p = find (\<lambda>r. path r = p) (map snd kvs)"
  by (induction kvs) auto

lemma static_paths: "\<forall>(k, r) \<in> set kvs. path r = k \<Longrightarrow> map path (map snd kvs) = map fst kvs"
  by (induction kvs) auto

lemma selectHandler_literal:
  assumes "wellFormed t"
    and "\<forall>r \<in> set (tableRoutes t). literalRoute r"
    and "\<forall>r \<in> set (tableRoutes t).
           splitWithoutEmptyStrings (path r) CHR ''/'' = splitWithoutEmptyStrings p CHR ''/'' \<longrightarrow> path r = p"
    and "\<forall>r \<in> set (tableRoutes t). handlers r ''ALL'' \<noteq> None \<longrightarrow> handlers r m \<noteq> None"
  shows "selectHandler t p m =
     (case find (\<lambda>r. path r = p) (tableRoutes t) of
        None \<Rightarrow> None
      | Some r \<Rightarrow> (case handlers r m of None \<Rightarrow> None | Some h \<Rightarrow> Some (r, h)))"
proof (cases t)
  case (DynamicRoutes rs)
  then show ?thesis using assms dynamicSearch_literal[of rs p m]
    by (auto simp: selectHandler_def tableRoutes_def wellFormed_def split: option.splits)
next
  case (StaticRoutes kvs)
  then show ?thesis using assms map_of_static[of kvs p]
    by (auto simp: selectHandler_def staticSearch_def tableRoutes_def wellFormed_def
             split: option.splits)
qed

text \<open>The tables that \<open>routeFn\<close> builds are well formed.\<close>

lemma wellFormed_empty: "wellFormed (DynamicRoutes [])"
  by (simp add: wellFormed_def)

lemma routeFn_wellFormed: "wellFormed t \<Longrightarrow> wellFormed (snd (routeFn p createNew t))"
proof (cases t)
  case (DynamicRoutes rs)
  assume "wellFormed t"
  then show ?thesis using DynamicRoutes
    by (auto simp: routeFn_def wellFormed_def newRoute_def Let_def find_None_iff split: option.splits)
next
  case (StaticRoutes kvs)
  assume wf: "wellFormed t"
  show ?thesis
  proof (cases "map_of kvs (normalizePath p)")
    case None
    then have "normalizePath p \<notin> fst ` set kvs" by (simp add: map_of_eq_None_iff)
    then show ?thesis using wf StaticRoutes None
      by (auto simp: routeFn_def wellFormed_def newRoute_def Let_def objSet_fresh)
  next
    case (Some r)
    then show ?thesis using wf StaticRoutes by (simp add: routeFn_def Let_def)
  qed
qed

text \<open>
  Claim C5, as the code has it. Take a table as \<open>routeFn\<close> builds it whose routes are all
  literal, a request path such that every route with the same segments as the request
  has exactly the request path as its path, and a method for which no route has the
  \<open>ALL\<close> entry without the method's own entry. Then switching the search mode with
  \<open>keepRoutes\<close>, in either direction, selects the same route and the same entry for that
  request as before, or the fallback in both cases.
\<close>

theorem setSearchMode_keeps_literal_matches:
  assumes "wellFormed t"
    and "\<forall>r \<in> set (tableRoutes t). literalRoute r"
    and "\<forall>r \<in> set (tableRoutes t).
           splitWithoutEmptyStrings (path r) CHR ''/'' = splitWithoutEmptyStrings p CHR ''/'' \<longrightarrow> path r = p"
    and "\<forall>r \<in> set (tableRoutes t). handlers r ''ALL'' \<noteq> None \<longrightarrow> handlers r m \<noteq> None"
  shows "selectHandler (fst (setSearchMode mode True t)) p m = selectHandler t p m"
proof -
  let ?found = "case find (\<lambda>r. path r = p) (tableRoutes t) of
        None \<Rightarrow> None
      | Some r \<Rightarrow> (case handlers r m of None \<Rightarrow> None | Some h \<Rightarrow> Some (r, h))"
  have before: "selectHandler t p m = ?found"
    by (rule selectHandler_literal[OF assms])
  show ?thesis
  proof (cases t)
    case (DynamicRoutes rs)
    show ?thesis
    proof (cases "mode = ''static''")
      case True
      have d: "distinct (map path rs)" using assms(1) DynamicRoutes by (simp add: wellFormed_def)
      have "selectHandler (StaticRoutes (toObject rs [])) p m = ?found"
        using map_of_toObject[OF d, of "[]" p] DynamicRoutes
        by (simp add: selectHandler_def staticSearch_def tableRoutes_def split: option.splits)
      then show ?thesis using True DynamicRoutes before
        by (simp add: setSearchMode_def searchMode_def)
    next
      case False
      then show ?thesis using DynamicRoutes
        by (simp add: setSearchMode_def searchMode_def)
    qed
  next
    case (StaticRoutes kvs)
    show ?thesis
    proof (cases "mode = ''dynamic''")
      case True
      have k: "\<forall>(k, r) \<in> set kvs. path r = k" and dk: "distinct (map fst kvs)"
        using assms(1) StaticRoutes by (simp_all add: wellFormed_def)
      have mp: "map path (map snd kvs) = map fst kvs" by (rule static_paths[OF k])
      have wf: "wellFormed (DynamicRoutes (map snd kvs))"
        by (simp only: wellFormed_def routeTable.case mp dk)
      have tr: "tableRoutes (DynamicRoutes (map snd kvs)) = tableRoutes t"
        using StaticRoutes by (simp add: tableRoutes_def)
      have "selectHandler (DynamicRoutes (map snd kvs)) p m = ?found"
        using selectHandler_literal[OF wf, of p m] assms(2-4) unfolding tr by simp
      then show ?thesis using True StaticRoutes before
        by (simp add: setSearchMode_def searchMode_def)
    next
      case False
      then show ?thesis using StaticRoutes
        by (simp add: setSearchMode_def searchMode_def)
    qed
  qed
qed

theorem setSearchMode_keeps_literal_matches_witness:
  "wellFormed (DynamicRoutes [\<lparr>path = ''/a'', handlers = [''GET'' \<mapsto> Handler (1::nat) []], middlewares = []\<rparr>,
                      \<lparr>path = ''/b/c'', handlers = [''ALL'' \<mapsto> Handler 2 [], ''GET'' \<mapsto> Handler 3 []],
                       middlewares = []\<rparr> :: (nat, unit, unit) route])
   \<and> selectHandler (fst (setSearchMode ''static'' True (DynamicRoutes [\<lparr>path = ''/a'', handlers = [''GET'' \<mapsto> Handler (1::nat) []], middlewares = []\<rparr>,
                      \<lparr>path = ''/b/c'', handlers = [''ALL'' \<mapsto> Handler 2 [], ''GET'' \<mapsto> Handler 3 []],
                       middlewares = []\<rparr> :: (nat, unit, unit) route]))) ''/b/c'' ''GET''
       = selectHandler (DynamicRoutes [\<lparr>path = ''/a'', handlers = [''GET'' \<mapsto> Handler (1::nat) []], middlewares = []\<rparr>,
                      \<lparr>path = ''/b/c'', handlers = [''ALL'' \<mapsto> Handler 2 [], ''GET'' \<mapsto> Handler 3 []],
                       middlewares = []\<rparr> :: (nat, unit, unit) route]) ''/b/c'' ''GET''
   \<and> selectHandler (DynamicRoutes [\<lparr>path = ''/a'', handlers = [''GET'' \<mapsto> Handler (1::nat) []], middlewares = []\<rparr>,
                      \<lparr>path = ''/b/c'', handlers = [''ALL'' \<mapsto> Handler 2 [], ''GET'' \<mapsto> Handler 3 []],
                       middlewares = []\<rparr> :: (nat, unit, unit) route]) ''/b/c'' ''GET''
       = Some (\<lparr>path = ''/b/c'', handlers = [''ALL'' \<mapsto> Handler 2 [], ''GET'' \<mapsto> Handler 3 []],
                middlewares = []\<rparr>, Handler 3 [])
   \<and> fst (setSearchMode ''static'' True (DynamicRoutes [\<lparr>path = ''/a'', handlers = [''GET'' \<mapsto> Handler (1::nat) []], middlewares = []\<rparr>,
                      \<lparr>path = ''/b/c'', handlers = [''ALL'' \<mapsto> Handler 2 [], ''GET'' \<mapsto> Handler 3 []],
                       middlewares = []\<rparr> :: (nat, unit, unit) route]))
       = StaticRoutes
           [(''/a'', \<lparr>path = ''/a'', handlers = [''GET'' \<mapsto> Handler 1 []], middlewares = []\<rparr>),
            (''/b/c'', \<lparr>path = ''/b/c'', handlers = [''ALL'' \<mapsto> Handler 2 [], ''GET'' \<mapsto> Handler 3 []],
                        middlewares = []\<rparr>)]"
proof -
  have h1: "wellFormed (DynamicRoutes [\<lparr>path = ''/a'', handlers = [''GET'' \<mapsto> Handler (1::nat) []], middlewares = []\<rparr>,
                      \<lparr>path = ''/b/c'', handlers = [''ALL'' \<mapsto> Handler 2 [], ''GET'' \<mapsto> Handler 3 []],
                       middlewares = []\<rparr> :: (nat, unit, unit) route])"
    by (simp add: wellFormed_def)
  have h2: "\<forall>r \<in> set (tableRoutes (DynamicRoutes [\<lparr>path = ''/a'', handlers = [''GET'' \<mapsto> Handler (1::nat) []], middlewares = []\<rparr>,
                      \<lparr>path = ''/b/c'', handlers = [''ALL'' \<mapsto> Handler 2 [], ''GET'' \<mapsto> Handler 3 []],
                       middlewares = []\<rparr> :: (nat, unit, unit) route])). literalRoute r"
    by (simp add: tableRoutes_def literalRoute_def splitWithoutEmptyStrings_def isParam_def)
  have h3: "\<forall>r \<in> set (tableRoutes (DynamicRoutes [\<lparr>path = ''/a'', handlers = [''GET'' \<mapsto> Handler (1::nat) []], middlewares = []\<rparr>,
                      \<lparr>path = ''/b/c'', handlers = [''ALL'' \<mapsto> Handler 2 [], ''GET'' \<mapsto> Handler 3 []],
                       middlewares = []\<rparr> :: (nat, unit, unit) route])).
      splitWithoutEmptyStrings (path r) CHR ''/'' = splitWithoutEmptyStrings ''/b/c'' CHR ''/''
        \<longrightarrow> path r = ''/b/c''"
    by (simp add: tableRoutes_def splitWithoutEmptyStrings_def)
  have h4: "\<forall>r \<in> set (tableRoutes (DynamicRoutes [\<lparr>path = ''/a'', handlers = [''GET'' \<mapsto> Handler (1::nat) []], middlewares = []\<rparr>,
                      \<lparr>path = ''/b/c'', handlers = [''ALL'' \<mapsto> Handler 2 [], ''GET'' \<mapsto> Handler 3 []],
                       middlewares = []\<rparr> :: (nat, unit, unit) route])). handlers r ''ALL'' \<noteq> None \<longrightarrow> handlers r ''GET'' \<noteq> None"
    by (simp add: tableRoutes_def)
  have v: "selectHandler (DynamicRoutes [\<lparr>path = ''/a'', handlers = [''GET'' \<mapsto> Handler (1::nat) []], middlewares = []\<rparr>,
                      \<lparr>path = ''/b/c'', handlers = [''ALL'' \<mapsto> Handler 2 [], ''GET'' \<mapsto> Handler 3 []],
                       middlewares = []\<rparr> :: (nat, unit, unit) route]) ''/b/c'' ''GET''
       = Some (\<lparr>path = ''/b/c'', handlers = [''ALL'' \<mapsto> Handler 2 [], ''GET'' \<mapsto> Handler 3 []],
                middlewares = []\<rparr>, Handler 3 [])"
    by (simp add: selectHandler_def tryRoute_def splitWithoutEmptyStrings_def isParam_def)
  have w: "fst (setSearchMode ''static'' True (DynamicRoutes [\<lparr>path = ''/a'', handlers = [''GET'' \<mapsto> Handler (1::nat) []], middlewares = []\<rparr>,
                      \<lparr>path = ''/b/c'', handlers = [''ALL'' \<mapsto> Handler 2 [], ''GET'' \<mapsto> Handler 3 []],
                       middlewares = []\<rparr> :: (nat, unit, unit) route]))
       = StaticRoutes
           [(''/a'', \<lparr>path = ''/a'', handlers = [''GET'' \<mapsto> Handler 1 []], middlewares = []\<rparr>),
            (''/b/c'', \<lparr>path = ''/b/c'', handlers = [''ALL'' \<mapsto> Handler 2 [], ''GET'' \<mapsto> Handler 3 []],
                        middlewares = []\<rparr>)]"
    by (simp add: setSearchMode_def searchMode_def)
  show ?thesis
    using setSearchMode_keeps_literal_matches[OF h1 h2 h3 h4, of "''static''"] h1 v w
    by simp
qed

theorem setSearchMode_trailing_slash_counterexample:
  "wellFormed (DynamicRoutes [\<lparr>path = ''/a/'', handlers = [''GET'' \<mapsto> Handler (1::nat) []], middlewares = []\<rparr>,
                      \<lparr>path = ''/a'', handlers = [''GET'' \<mapsto> Handler 2 []], middlewares = []\<rparr>
                        :: (nat, unit, unit) route])
   \<and> literalRoute (\<lparr>path = ''/a/'', handlers = [''GET'' \<mapsto> Handler (1::nat) []], middlewares = []\<rparr>
                      :: (nat, unit, unit) route)
   \<and> literalRoute (\<lparr>path = ''/a'', handlers = [''GET'' \<mapsto> Handler (2::nat) []], middlewares = []\<rparr>
                      :: (nat, unit, unit) route)
   \<and> selectHandler (DynamicRoutes [\<lparr>path = ''/a/'', handlers = [''GET'' \<mapsto> Handler (1::nat) []], middlewares = []\<rparr>,
                      \<lparr>path = ''/a'', handlers = [''GET'' \<mapsto> Handler 2 []], middlewares = []\<rparr>
                        :: (nat, unit, unit) route]) ''/a'' ''GET''
       = Some (\<lparr>path = ''/a/'', handlers = [''GET'' \<mapsto> Handler 1 []], middlewares = []\<rparr>, Handler 1 [])
   \<and> selectHandler (fst (setSearchMode ''static'' True (DynamicRoutes [\<lparr>path = ''/a/'', handlers = [''GET'' \<mapsto> Handler (1::nat) []], middlewares = []\<rparr>,
                      \<lparr>path = ''/a'', handlers = [''GET'' \<mapsto> Handler 2 []], middlewares = []\<rparr>
                        :: (nat, unit, unit) route]))) ''/a'' ''GET''
       = Some (\<lparr>path = ''/a'', handlers = [''GET'' \<mapsto> Handler 2 []], middlewares = []\<rparr>, Handler 2 [])"
  by (simp add: wellFormed_def literalRoute_def selectHandler_def staticSearch_def tryRoute_def
        setSearchMode_def searchMode_def splitWithoutEmptyStrings_def isParam_def)

section \<open>Properties of the middleware chain\<close>

lemma callNextLoop_done: "callNextLoop sc mws 0 i u tr resolved = (u, tr, resolved)"
  by (subst callNextLoop.simps) simp

lemma callNextLoop_resolve:
  "0 < pending \<Longrightarrow> i + 1 = length mws \<Longrightarrow>
   callNextLoop sc mws pending i u tr resolved = callNextLoop sc mws (pending - 1) (i + 1) u tr True"
  by (subst callNextLoop.simps) simp

lemma callNextLoop_run:
  "0 < pending \<Longrightarrow> i + 1 < length mws \<Longrightarrow> (mws ! (i + 1)) u = (u', n) \<Longrightarrow>
   callNextLoop sc mws pending i u tr resolved
     = callNextLoop sc mws (pending - 1 + n) (i + 1) u' (tr @ [RanMiddleware sc (i + 1)]) resolved"
  by (subst callNextLoop.simps) simp

lemma callNextLoop_throw:
  "0 < pending \<Longrightarrow> length mws < i + 1 \<Longrightarrow>
   callNextLoop sc mws pending i u tr resolved = (u, tr, resolved)"
  by (subst callNextLoop.simps) simp

lemma upt_step: "[i ..< i + Suc n] = i # [i + 1 ..< i + 1 + n]"
  by (simp add: upt_rec)

lemma callNextLoop_halts:
  "i < length mws \<Longrightarrow> firstHalt (drop (i + 1) mws) u = Some j \<Longrightarrow>
   \<exists>u'. callNextLoop sc mws 1 i u tr False
          = (u', tr @ map (RanMiddleware sc) [i + 1 ..< i + 1 + (j + 1)], False)"
proof (induction j arbitrary: i u tr)
  case 0
  from "0.prems"(2) have ne: "drop (i + 1) mws \<noteq> []" by auto
  then have lt: "i + 1 < length mws" by simp
  obtain u1 n where m: "(mws ! (i + 1)) u = (u1, n)" by (cases "(mws ! (i + 1)) u") auto
  have d: "drop (i + 1) mws = mws ! (i + 1) # drop (i + 1 + 1) mws"
    using lt by (simp add: Cons_nth_drop_Suc)
  have n0: "n = 0" using "0.prems"(2) m unfolding d
    by (auto split: if_splits)
  have "callNextLoop sc mws 1 i u tr False = (u1, tr @ [RanMiddleware sc (i + 1)], False)"
    using callNextLoop_run[OF _ lt m, of 1 sc tr False] n0 by (simp add: callNextLoop_done)
  then show ?case by (simp add: upt_rec)
next
  case (Suc j)
  from Suc.prems(2) have ne: "drop (i + 1) mws \<noteq> []" by auto
  then have lt: "i + 1 < length mws" by simp
  obtain u1 n where m: "(mws ! (i + 1)) u = (u1, n)" by (cases "(mws ! (i + 1)) u") auto
  have d: "drop (i + 1) mws = mws ! (i + 1) # drop (i + 1 + 1) mws"
    using lt by (simp add: Cons_nth_drop_Suc)
  have n1: "n = 1" and fh: "firstHalt (drop (i + 1 + 1) mws) u1 = Some j"
    using Suc.prems(2) m unfolding d by (auto split: if_splits)
  from Suc.IH[OF lt fh, of "tr @ [RanMiddleware sc (i + 1)]"]
  obtain u' where c: "callNextLoop sc mws 1 (i + 1) u1 (tr @ [RanMiddleware sc (i + 1)]) False
     = (u', (tr @ [RanMiddleware sc (i + 1)]) @ map (RanMiddleware sc) [i + 1 + 1 ..< i + 1 + 1 + (j + 1)], False)"
    by blast
  have "callNextLoop sc mws 1 i u tr False
      = callNextLoop sc mws 1 (i + 1) u1 (tr @ [RanMiddleware sc (i + 1)]) False"
    using callNextLoop_run[OF _ lt m, of 1 sc tr False] n1 by simp
  moreover have "[i + 1 ..< i + 1 + (Suc j + 1)] = (i + 1) # [i + 1 + 1 ..< i + 1 + 1 + (j + 1)]"
    using upt_step[of "i + 1" "j + 1"] by simp
  ultimately show ?case using c by simp
qed

lemma callNextLoop_all:
  "i < length mws \<Longrightarrow> allContinueOnce (drop (i + 1) mws) u \<Longrightarrow>
   callNextLoop sc mws 1 i u tr False
     = (stateAfter (drop (i + 1) mws) u, tr @ map (RanMiddleware sc) [i + 1 ..< length mws], True)"
proof (induction "length mws - i" arbitrary: i u tr)
  case 0
  then show ?case by simp
next
  case (Suc k)
  show ?case
  proof (cases "i + 1 = length mws")
    case True
    then show ?thesis
      using callNextLoop_resolve[of 1 i mws sc u tr False] by (simp add: callNextLoop_done)
  next
    case False
    then have lt: "i + 1 < length mws" using Suc.prems(1) by simp
    obtain u1 n where m: "(mws ! (i + 1)) u = (u1, n)" by (cases "(mws ! (i + 1)) u") auto
    have d: "drop (i + 1) mws = mws ! (i + 1) # drop (i + 1 + 1) mws"
      using lt by (simp add: Cons_nth_drop_Suc)
    have n1: "n = 1" and ac: "allContinueOnce (drop (i + 1 + 1) mws) u1"
      using Suc.prems(2) m unfolding d by auto
    have k: "k = length mws - (i + 1)" using Suc.hyps(2) by simp
    have ih: "callNextLoop sc mws 1 (i + 1) u1 (tr @ [RanMiddleware sc (i + 1)]) False
       = (stateAfter (drop (i + 1 + 1) mws) u1,
          (tr @ [RanMiddleware sc (i + 1)]) @ map (RanMiddleware sc) [i + 1 + 1 ..< length mws], True)"
      by (rule Suc.hyps(1)[OF k lt ac])
    have "callNextLoop sc mws 1 i u tr False
        = callNextLoop sc mws 1 (i + 1) u1 (tr @ [RanMiddleware sc (i + 1)]) False"
      using callNextLoop_run[OF _ lt m, of 1 sc tr False] n1 by simp
    moreover have "[i + 1 ..< length mws] = (i + 1) # [i + 1 + 1 ..< length mws]"
      using lt by (simp add: upt_rec)
    moreover have "stateAfter (drop (i + 1) mws) u = stateAfter (drop (i + 1 + 1) mws) u1"
      unfolding d using m by simp
    ultimately show ?thesis using ih by simp
  qed
qed

lemma execMiddlewares_halts:
  assumes "firstHalt mws u = Some j"
  shows "\<exists>u'. execMiddlewares sc mws (u, tr)
           = ((u', tr @ map (RanMiddleware sc) [0 ..< j + 1]), False)"
proof -
  from assms obtain mw rest where mws: "mws = mw # rest" by (cases mws) auto
  obtain u1 n where m: "mw u = (u1, n)" by (cases "mw u") auto
  show ?thesis
  proof (cases "n = 0")
    case True
    then have "j = 0" using assms mws m by simp
    then show ?thesis using mws m True
      by (simp add: execMiddlewares_def callNextLoop_done)
  next
    case False
    then have n1: "n = 1" and "\<exists>j'. j = Suc j' \<and> firstHalt rest u1 = Some j'"
      using assms mws m by (auto split: if_splits)
    then obtain j' where j: "j = Suc j'" and fh: "firstHalt (drop (0 + 1) mws) u1 = Some j'"
      using mws by auto
    have lt: "0 < length mws" using mws by simp
    define ks where "ks = [0 + 1 ..< 0 + 1 + (j' + 1)]"
    from callNextLoop_halts[OF lt fh, of sc "tr @ [RanMiddleware sc 0]"]
    obtain u' where c: "callNextLoop sc mws 1 0 u1 (tr @ [RanMiddleware sc 0]) False
       = (u', (tr @ [RanMiddleware sc 0]) @ map (RanMiddleware sc) ks, False)"
      unfolding ks_def by blast
    have e: "[0 ..< j + 1] = 0 # ks"
      unfolding ks_def using j by (simp add: upt_rec)
    show ?thesis unfolding e using c mws m n1
      by (simp add: execMiddlewares_def)
  qed
qed

lemma execMiddlewares_all:
  assumes "allContinueOnce mws u"
  shows "execMiddlewares sc mws (u, tr)
           = ((stateAfter mws u, tr @ map (RanMiddleware sc) [0 ..< length mws]), True)"
proof (cases mws)
  case Nil
  then show ?thesis by (simp add: execMiddlewares_def)
next
  case (Cons mw rest)
  obtain u1 n where m: "mw u = (u1, n)" by (cases "mw u") auto
  have n1: "n = 1" and ac: "allContinueOnce (drop (0 + 1) mws) u1"
    using assms Cons m by auto
  have lt: "0 < length mws" using Cons by simp
  have c: "callNextLoop sc mws 1 0 u1 (tr @ [RanMiddleware sc 0]) False
     = (stateAfter (drop (0 + 1) mws) u1,
        (tr @ [RanMiddleware sc 0]) @ map (RanMiddleware sc) [0 + 1 ..< length mws], True)"
    by (rule callNextLoop_all[OF lt ac])
  have "[0 ..< length mws] = 0 # [0 + 1 ..< length mws]"
    using lt by (simp add: upt_rec)
  then show ?thesis using c Cons m n1
    by (simp add: execMiddlewares_def)
qed

lemma callNextLoop_eval:
  "0 < pending \<Longrightarrow> i + 1 < length mws \<Longrightarrow>
   callNextLoop sc mws pending i u tr resolved
     = callNextLoop sc mws (pending - 1 + snd ((mws ! (i + 1)) u)) (i + 1) (fst ((mws ! (i + 1)) u))
         (tr @ [RanMiddleware sc (i + 1)]) resolved"
  by (subst callNextLoop.simps) (simp add: case_prod_beta)

lemma firstHalt_exists:
  "\<forall>mw \<in> set mws. atMostOnce mw \<Longrightarrow> j < length mws \<Longrightarrow> neverContinues (mws ! j) \<Longrightarrow>
   \<exists>k \<le> j. firstHalt mws u = Some k"
proof (induction mws arbitrary: j u)
  case Nil
  then show ?case by simp
next
  case (Cons mw rest)
  obtain u1 n where m: "mw u = (u1, n)" by (cases "mw u") auto
  have "snd (mw u) \<le> 1" using Cons.prems(1) by (simp add: atMostOnce_def)
  then have n: "n = 0 \<or> n = 1" using m by auto
  show ?case
  proof (cases "n = 0")
    case True
    then show ?thesis using m by simp
  next
    case False
    then have n1: "n = 1" using n by simp
    have "j \<noteq> 0"
    proof
      assume "j = 0"
      then have "snd (mw u) = 0" using Cons.prems(3) by (simp add: neverContinues_def)
      then show False using m n1 by simp
    qed
    then obtain j' where j: "j = Suc j'" by (cases j) auto
    have "\<forall>mw \<in> set rest. atMostOnce mw" "j' < length rest" "neverContinues (rest ! j')"
      using Cons.prems j by auto
    from Cons.IH[OF this, of u1] obtain k where "k \<le> j'" "firstHalt rest u1 = Some k" by blast
    then show ?thesis using m n1 j by (intro exI[of _ "Suc k"]) simp
  qed
qed

lemma handlerCalls_append: "handlerCalls (a @ b) = handlerCalls a + handlerCalls b"
  by (simp add: handlerCalls_def)

lemma handlerCalls_middlewares: "handlerCalls (map (RanMiddleware sc) ks) = 0"
  by (induction ks) (auto simp: handlerCalls_def)

lemma callNextLoop_handlerCalls:
  "handlerCalls (fst (snd (callNextLoop sc mws pending i u tr resolved))) = handlerCalls tr"
proof (induction sc mws pending i u tr resolved rule: callNextLoop.induct)
  case (1 sc mws pending i u tr resolved)
  show ?case
  proof (cases "pending = 0")
    case True
    then show ?thesis by (simp add: callNextLoop_done)
  next
    case False
    then have p: "0 < pending" by simp
    consider (res) "i + 1 = length mws" | (run) "i + 1 < length mws" | (thr) "length mws < i + 1"
      by linarith
    then show ?thesis
    proof cases
      case res
      then show ?thesis using "1.IH"(1)[OF False res] callNextLoop_resolve[OF p res] by simp
    next
      case run
      obtain u1 n where m: "(mws ! (i + 1)) u = (u1, n)" by (cases "(mws ! (i + 1)) u") auto
      have ne: "i + 1 \<noteq> length mws" using run by simp
      have "handlerCalls (fst (snd (callNextLoop sc mws (pending - 1 + n) (i + 1) u1
                (tr @ [RanMiddleware sc (i + 1)]) resolved)))
            = handlerCalls (tr @ [RanMiddleware sc (i + 1)])"
        using "1.IH"(2)[OF False ne run m[symmetric]] by simp
      then show ?thesis using callNextLoop_run[OF p run m, of sc tr resolved]
        by (simp add: handlerCalls_def)
    next
      case thr
      then show ?thesis using callNextLoop_throw[OF p thr] by simp
    qed
  qed
qed

lemma execMiddlewares_handlerCalls:
  "handlerCalls (snd (fst (execMiddlewares sc mws s))) = handlerCalls (snd s)"
proof (cases "length mws = 0")
  case True
  then show ?thesis by (simp add: execMiddlewares_def)
next
  case False
  obtain u tr where s: "s = (u, tr)" by (cases s) auto
  obtain u1 n where m: "(mws ! 0) u = (u1, n)" by (cases "(mws ! 0) u") auto
  obtain u2 tr2 r2 where c: "callNextLoop sc mws n 0 u1 (tr @ [RanMiddleware sc 0]) False = (u2, tr2, r2)"
    by (cases "callNextLoop sc mws n 0 u1 (tr @ [RanMiddleware sc 0]) False") auto
  have "handlerCalls tr2 = handlerCalls (tr @ [RanMiddleware sc 0])"
    using callNextLoop_handlerCalls[of sc mws n 0 u1 "tr @ [RanMiddleware sc 0]" False] c by simp
  then show ?thesis using False s m c by (simp add: execMiddlewares_def handlerCalls_def)
qed

lemma lookupRoute_trace: "lookupRoute up t s = Some (r, h, s') \<Longrightarrow> snd s' = snd s"
  by (cases s; cases t) (auto simp: lookupRoute_def Let_def split: option.splits prod.splits)

lemma startState_handlerCalls: "handlerCalls (snd (startState pn ex)) = 0"
  by (cases ex) (simp add: startState_def handlerCalls_def)

lemma requestHandler_global_halt:
  assumes "firstHalt (globalMiddlewares rtr) (fst (startState pn ex)) = Some j"
  shows "\<exists>u'. requestHandler pn up rtr ex
           = (u', EmittedRequest # map (RanMiddleware GlobalChain) [0 ..< j + 1])"
proof -
  obtain u where st: "startState pn ex = (u, [EmittedRequest])"
    by (cases ex) (simp add: startState_def)
  from execMiddlewares_halts[of "globalMiddlewares rtr" u j GlobalChain "[EmittedRequest]"] assms st
  obtain u' where "execMiddlewares GlobalChain (globalMiddlewares rtr) (u, [EmittedRequest])
      = ((u', [EmittedRequest] @ map (RanMiddleware GlobalChain) [0 ..< j + 1]), False)"
    by auto
  then show ?thesis using st by (auto simp: requestHandler_def)
qed

lemma requestHandler_route_halt:
  assumes "execMiddlewares GlobalChain (globalMiddlewares rtr) (startState pn ex) = (sg, True)"
    and "lookupRoute up (routes rtr) sg = Some (r, h, sl)"
    and "firstHalt (middlewares r) (fst sl) = Some j"
  shows "\<exists>u'. requestHandler pn up rtr ex
           = (u', snd sg @ map (RanMiddleware RouteChain) [0 ..< j + 1])"
proof -
  obtain ul trl where sl: "sl = (ul, trl)" by (cases sl) auto
  have t: "trl = snd sg" using lookupRoute_trace[OF assms(2)] sl by simp
  from execMiddlewares_halts[of "middlewares r" ul j RouteChain trl] assms(3) sl
  obtain u' where "execMiddlewares RouteChain (middlewares r) (ul, trl)
      = ((u', trl @ map (RanMiddleware RouteChain) [0 ..< j + 1]), False)"
    by auto
  then show ?thesis using assms(1,2) sl t
    by (auto simp: requestHandler_def dispatch_def)
qed

lemma requestHandler_method_halt:
  assumes "execMiddlewares GlobalChain (globalMiddlewares rtr) (startState pn ex) = (sg, True)"
    and "lookupRoute up (routes rtr) sg = Some (r, h, sl)"
    and "execMiddlewares RouteChain (middlewares r) sl = (sr, True)"
    and "firstHalt (entryMiddlewares h) (fst sr) = Some j"
  shows "\<exists>u'. requestHandler pn up rtr ex
           = (u', snd sr @ map (RanMiddleware MethodChain) [0 ..< j + 1])"
proof -
  obtain ur trr where sr: "sr = (ur, trr)" by (cases sr) auto
  from execMiddlewares_halts[of "entryMiddlewares h" ur j MethodChain trr] assms(4) sr
  obtain u' where "execMiddlewares MethodChain (entryMiddlewares h) (ur, trr)
      = ((u', trr @ map (RanMiddleware MethodChain) [0 ..< j + 1]), False)"
    by auto
  then show ?thesis using assms(1,2,3) sr
    by (auto simp: requestHandler_def dispatch_def)
qed

lemma requestHandler_reaches_handler:
  assumes "execMiddlewares GlobalChain (globalMiddlewares rtr) (startState pn ex) = (sg, True)"
    and "lookupRoute up (routes rtr) sg = Some (r, h, sl)"
    and "execMiddlewares RouteChain (middlewares r) sl = (sr, True)"
    and "execMiddlewares MethodChain (entryMiddlewares h) sr = (sm, True)"
  shows "requestHandler pn up rtr ex = handle (errorListeners rtr) (responses rtr) h sm"
  using assms by (simp add: requestHandler_def dispatch_def)

lemma global_trace_handlerCalls:
  assumes "execMiddlewares GlobalChain (globalMiddlewares rtr) (startState pn ex) = (sg, resolved)"
  shows "handlerCalls (snd sg) = 0"
  using execMiddlewares_handlerCalls[of GlobalChain "globalMiddlewares rtr" "startState pn ex"] assms
  by (simp add: startState_handlerCalls)

lemma requestHandler_global_halt_calls:
  assumes "firstHalt (globalMiddlewares rtr) (fst (startState pn ex)) = Some j"
  shows "handlerCalls (snd (requestHandler pn up rtr ex)) = 0"
proof -
  from requestHandler_global_halt[OF assms, of up]
  obtain u' where "requestHandler pn up rtr ex
           = (u', [EmittedRequest] @ map (RanMiddleware GlobalChain) [0 ..< j + 1])" by auto
  then have "handlerCalls (snd (requestHandler pn up rtr ex))
      = handlerCalls ([EmittedRequest] @ map (RanMiddleware GlobalChain) [0 ..< j + 1])"
    by (simp only: snd_conv)
  also have "\<dots> = 0"
    unfolding handlerCalls_append handlerCalls_middlewares by (simp add: handlerCalls_def)
  finally show ?thesis .
qed

lemma requestHandler_route_halt_calls:
  assumes "execMiddlewares GlobalChain (globalMiddlewares rtr) (startState pn ex) = (sg, True)"
    and "lookupRoute up (routes rtr) sg = Some (r, h, sl)"
    and "firstHalt (middlewares r) (fst sl) = Some j"
  shows "handlerCalls (snd (requestHandler pn up rtr ex)) = 0"
proof -
  from requestHandler_route_halt[OF assms]
  obtain u' where "requestHandler pn up rtr ex
           = (u', snd sg @ map (RanMiddleware RouteChain) [0 ..< j + 1])" by blast
  then have "handlerCalls (snd (requestHandler pn up rtr ex))
      = handlerCalls (snd sg @ map (RanMiddleware RouteChain) [0 ..< j + 1])"
    by (simp only: snd_conv)
  also have "\<dots> = 0"
    unfolding handlerCalls_append handlerCalls_middlewares
    using global_trace_handlerCalls[OF assms(1)] by simp
  finally show ?thesis .
qed

lemma requestHandler_method_halt_calls:
  assumes "execMiddlewares GlobalChain (globalMiddlewares rtr) (startState pn ex) = (sg, True)"
    and "lookupRoute up (routes rtr) sg = Some (r, h, sl)"
    and "execMiddlewares RouteChain (middlewares r) sl = (sr, True)"
    and "firstHalt (entryMiddlewares h) (fst sr) = Some j"
  shows "handlerCalls (snd (requestHandler pn up rtr ex)) = 0"
proof -
  from requestHandler_method_halt[OF assms]
  obtain u' where "requestHandler pn up rtr ex
           = (u', snd sr @ map (RanMiddleware MethodChain) [0 ..< j + 1])" by blast
  then have "handlerCalls (snd (requestHandler pn up rtr ex))
      = handlerCalls (snd sr @ map (RanMiddleware MethodChain) [0 ..< j + 1])"
    by (simp only: snd_conv)
  also have "\<dots> = handlerCalls (snd sr)"
    unfolding handlerCalls_append handlerCalls_middlewares by simp
  also have "\<dots> = handlerCalls (snd sl)"
    using execMiddlewares_handlerCalls[of RouteChain "middlewares r" sl] assms(3) by simp
  also have "\<dots> = 0"
    using lookupRoute_trace[OF assms(2)] global_trace_handlerCalls[OF assms(1)] by simp
  finally show ?thesis .
qed

text \<open>
  Claim C8, as the code has it. In a chain whose middlewares, each on the state it
  receives, invoke the continuation once until one does not invoke it, the chain does
  not resolve and exactly the middlewares up to that one have run, in list order: none
  after it runs. When every middleware invokes the continuation once, all of them run
  in list order and the chain resolves. A middleware that never continues, in a chain
  of middlewares that continue at most once, is such a halting middleware or comes after
  one. In the request handler: when the global chain halts, or the chain of the selected
  route halts after the global chain resolved, or the chain of the selected entry halts
  after both resolved, no later middleware of that chain runs and the trace of the
  request has no handler call; when the three chains resolve, the selected entry is
  handled. Without the bound on the invocations this fails: a middleware that invokes
  the continuation twice resolves the chain past a middleware that never continues.
\<close>

theorem middleware_chain_short_circuit:
  "(firstHalt mws u = Some j \<longrightarrow>
      (\<exists>u'. execMiddlewares sc mws (u, tra)
               = ((u', tra @ map (RanMiddleware sc) [0 ..< j + 1]), False)))
   \<and> (allContinueOnce mws u \<longrightarrow>
      execMiddlewares sc mws (u, tra)
        = ((stateAfter mws u, tra @ map (RanMiddleware sc) [0 ..< length mws]), True))
   \<and> ((\<forall>mw \<in> set mws. atMostOnce mw) \<and> j < length mws \<and> neverContinues (mws ! j) \<longrightarrow>
      (\<exists>k \<le> j. firstHalt mws u = Some k))
   \<and> (firstHalt (globalMiddlewares rtr) (fst (startState pn ex)) = Some j \<longrightarrow>
      (\<exists>u'. requestHandler pn up rtr ex
               = (u', EmittedRequest # map (RanMiddleware GlobalChain) [0 ..< j + 1]))
      \<and> handlerCalls (snd (requestHandler pn up rtr ex)) = 0)
   \<and> (execMiddlewares GlobalChain (globalMiddlewares rtr) (startState pn ex) = (sg, True)
       \<and> lookupRoute up (routes rtr) sg = Some (r, h, sl)
       \<and> firstHalt (middlewares r) (fst sl) = Some j \<longrightarrow>
      (\<exists>u'. requestHandler pn up rtr ex
               = (u', snd sg @ map (RanMiddleware RouteChain) [0 ..< j + 1]))
      \<and> handlerCalls (snd (requestHandler pn up rtr ex)) = 0)
   \<and> (execMiddlewares GlobalChain (globalMiddlewares rtr) (startState pn ex) = (sg, True)
       \<and> lookupRoute up (routes rtr) sg = Some (r, h, sl)
       \<and> execMiddlewares RouteChain (middlewares r) sl = (sr, True)
       \<and> firstHalt (entryMiddlewares h) (fst sr) = Some j \<longrightarrow>
      (\<exists>u'. requestHandler pn up rtr ex
               = (u', snd sr @ map (RanMiddleware MethodChain) [0 ..< j + 1]))
      \<and> handlerCalls (snd (requestHandler pn up rtr ex)) = 0)
   \<and> (execMiddlewares GlobalChain (globalMiddlewares rtr) (startState pn ex) = (sg, True)
       \<and> lookupRoute up (routes rtr) sg = Some (r, h, sl)
       \<and> execMiddlewares RouteChain (middlewares r) sl = (sr, True)
       \<and> execMiddlewares MethodChain (entryMiddlewares h) sr = (sm, True) \<longrightarrow>
      requestHandler pn up rtr ex = handle (errorListeners rtr) (responses rtr) h sm)"
proof (intro conjI impI)
  assume "firstHalt mws u = Some j"
  then show "\<exists>u'. execMiddlewares sc mws (u, tra)
               = ((u', tra @ map (RanMiddleware sc) [0 ..< j + 1]), False)"
    by (rule execMiddlewares_halts)
next
  assume "allContinueOnce mws u"
  then show "execMiddlewares sc mws (u, tra)
        = ((stateAfter mws u, tra @ map (RanMiddleware sc) [0 ..< length mws]), True)"
    by (rule execMiddlewares_all)
next
  assume a: "(\<forall>mw \<in> set mws. atMostOnce mw) \<and> j < length mws \<and> neverContinues (mws ! j)"
  show "\<exists>k \<le> j. firstHalt mws u = Some k"
    by (rule firstHalt_exists[OF conjunct1[OF a] conjunct1[OF conjunct2[OF a]]
          conjunct2[OF conjunct2[OF a]]])
next
  assume a: "firstHalt (globalMiddlewares rtr) (fst (startState pn ex)) = Some j"
  show "\<exists>u'. requestHandler pn up rtr ex
               = (u', EmittedRequest # map (RanMiddleware GlobalChain) [0 ..< j + 1])"
    by (rule requestHandler_global_halt[OF a])
next
  assume a: "firstHalt (globalMiddlewares rtr) (fst (startState pn ex)) = Some j"
  show "handlerCalls (snd (requestHandler pn up rtr ex)) = 0"
    by (rule requestHandler_global_halt_calls[OF a])
next
  assume a: "execMiddlewares GlobalChain (globalMiddlewares rtr) (startState pn ex) = (sg, True)
       \<and> lookupRoute up (routes rtr) sg = Some (r, h, sl)
       \<and> firstHalt (middlewares r) (fst sl) = Some j"
  show "\<exists>u'. requestHandler pn up rtr ex
               = (u', snd sg @ map (RanMiddleware RouteChain) [0 ..< j + 1])"
    by (rule requestHandler_route_halt[OF conjunct1[OF a] conjunct1[OF conjunct2[OF a]]
          conjunct2[OF conjunct2[OF a]]])
next
  assume a: "execMiddlewares GlobalChain (globalMiddlewares rtr) (startState pn ex) = (sg, True)
       \<and> lookupRoute up (routes rtr) sg = Some (r, h, sl)
       \<and> firstHalt (middlewares r) (fst sl) = Some j"
  show "handlerCalls (snd (requestHandler pn up rtr ex)) = 0"
    by (rule requestHandler_route_halt_calls[OF conjunct1[OF a] conjunct1[OF conjunct2[OF a]]
          conjunct2[OF conjunct2[OF a]]])
next
  assume a: "execMiddlewares GlobalChain (globalMiddlewares rtr) (startState pn ex) = (sg, True)
       \<and> lookupRoute up (routes rtr) sg = Some (r, h, sl)
       \<and> execMiddlewares RouteChain (middlewares r) sl = (sr, True)
       \<and> firstHalt (entryMiddlewares h) (fst sr) = Some j"
  show "\<exists>u'. requestHandler pn up rtr ex
               = (u', snd sr @ map (RanMiddleware MethodChain) [0 ..< j + 1])"
    by (rule requestHandler_method_halt[OF conjunct1[OF a] conjunct1[OF conjunct2[OF a]]
          conjunct1[OF conjunct2[OF conjunct2[OF a]]] conjunct2[OF conjunct2[OF conjunct2[OF a]]]])
next
  assume a: "execMiddlewares GlobalChain (globalMiddlewares rtr) (startState pn ex) = (sg, True)
       \<and> lookupRoute up (routes rtr) sg = Some (r, h, sl)
       \<and> execMiddlewares RouteChain (middlewares r) sl = (sr, True)
       \<and> firstHalt (entryMiddlewares h) (fst sr) = Some j"
  show "handlerCalls (snd (requestHandler pn up rtr ex)) = 0"
    by (rule requestHandler_method_halt_calls[OF conjunct1[OF a] conjunct1[OF conjunct2[OF a]]
          conjunct1[OF conjunct2[OF conjunct2[OF a]]] conjunct2[OF conjunct2[OF conjunct2[OF a]]]])
next
  assume a: "execMiddlewares GlobalChain (globalMiddlewares rtr) (startState pn ex) = (sg, True)
       \<and> lookupRoute up (routes rtr) sg = Some (r, h, sl)
       \<and> execMiddlewares RouteChain (middlewares r) sl = (sr, True)
       \<and> execMiddlewares MethodChain (entryMiddlewares h) sr = (sm, True)"
  show "requestHandler pn up rtr ex = handle (errorListeners rtr) (responses rtr) h sm"
    by (rule requestHandler_reaches_handler[OF conjunct1[OF a] conjunct1[OF conjunct2[OF a]]
          conjunct1[OF conjunct2[OF conjunct2[OF a]]] conjunct2[OF conjunct2[OF conjunct2[OF a]]]])
qed

theorem middleware_chain_short_circuit_witness:
  "snd (requestHandler pathnameUpToQuery id
           (exampleRouter [\<lambda>u. (u, 1), \<lambda>u. (u, 0), \<lambda>u. (u, 1)]) (exampleRequest, emptyResponse))
     = [EmittedRequest, RanMiddleware GlobalChain 0, RanMiddleware RouteChain 0,
        RanMiddleware RouteChain 1]
   \<and> handlerCalls (snd (requestHandler pathnameUpToQuery id
           (exampleRouter [\<lambda>u. (u, 1), \<lambda>u. (u, 0), \<lambda>u. (u, 1)]) (exampleRequest, emptyResponse)))
     = 0
   \<and> requestHandler pathnameUpToQuery id
           (exampleRouter [\<lambda>u. (u, 1)]) (exampleRequest\<lparr>url := ''/a?=1''\<rparr>, emptyResponse)
     = ((exampleRequest\<lparr>url := ''/a?=1'', reqPath := ''/a''\<rparr>,
         \<lparr>written = [WriteHead 400 ''text/html'', End (Some ''400'')]\<rparr>),
        [EmittedRequest, RanMiddleware GlobalChain 0])
   \<and> handlerCalls (snd (requestHandler pathnameUpToQuery id
           (exampleRouter [\<lambda>u. (u, 1)]) (exampleRequest\<lparr>url := ''/a?=1''\<rparr>, emptyResponse)))
     = 0
   \<and> snd (requestHandler pathnameUpToQuery id
           (exampleRouter [\<lambda>u. (u, 1)]) (exampleRequest, emptyResponse))
     = [EmittedRequest, RanMiddleware GlobalChain 0, RanMiddleware RouteChain 0,
        RanMiddleware MethodChain 0, CalledHandler]"
proof -
  let ?rtr = "exampleRouter [\<lambda>u. (u, 1), \<lambda>u. (u, 0), \<lambda>u. (u, 1)]"
  let ?sg = "((exampleRequest\<lparr>reqPath := ''/a''\<rparr>, emptyResponse),
              [EmittedRequest, RanMiddleware GlobalChain 0])"
  let ?sl = "((exampleRequest\<lparr>reqPath := ''/a'', reqParams := Some Map.empty\<rparr>, emptyResponse),
              [EmittedRequest, RanMiddleware GlobalChain 0])"
  let ?r = "\<lparr>path = ''/a'', handlers = [''GET'' \<mapsto> Handler (\<lambda>u. u) [\<lambda>u. (u, 1)]],
            middlewares = [\<lambda>u. (u, 1), \<lambda>u. (u, 0), \<lambda>u. (u, 1)]\<rparr>
              :: ((nat, unit) handlerFn, (nat, unit) splitterFn, (nat, unit) middlewareFn) route"
  let ?h = "Handler (\<lambda>u. u) [\<lambda>u. (u, 1)]
              :: ((nat, unit) handlerFn, (nat, unit) splitterFn, (nat, unit) middlewareFn) handlerEntry"
  have g: "execMiddlewares GlobalChain (globalMiddlewares ?rtr)
             (startState pathnameUpToQuery (exampleRequest, emptyResponse)) = (?sg, True)"
    by (simp add: requestHandler_def startState_def execMiddlewares_def callNextLoop_eval
          callNextLoop_done callNextLoop_resolve lookupRoute_def dispatch_def tryRoute_def
          splitWithoutEmptyStrings_def isParam_def normalizePath_def asMiddleware_def
          queryParser_def exampleRequest_def exampleRouter_def pathnameUpToQuery_def Let_def
          parseQuery_def initialState_def appendChar_def respond_def responseText_def
          emptyResponse_def)
  have l: "lookupRoute id (routes ?rtr) ?sg = Some (?r, ?h, ?sl)"
    by (simp add: requestHandler_def startState_def execMiddlewares_def callNextLoop_eval
          callNextLoop_done callNextLoop_resolve lookupRoute_def dispatch_def tryRoute_def
          splitWithoutEmptyStrings_def isParam_def normalizePath_def asMiddleware_def
          queryParser_def exampleRequest_def exampleRouter_def pathnameUpToQuery_def Let_def
          parseQuery_def initialState_def appendChar_def respond_def responseText_def
          emptyResponse_def)
  have f: "firstHalt (middlewares ?r) (fst ?sl) = Some 1"
    by simp
  have a: "handlerCalls (snd (requestHandler pathnameUpToQuery id ?rtr (exampleRequest, emptyResponse))) = 0"
    by (rule middleware_chain_short_circuit[where rtr = ?rtr and pn = pathnameUpToQuery and up = id
          and ex = "(exampleRequest, emptyResponse)" and sg = ?sg and r = ?r and h = ?h
          and sl = ?sl and j = 1,
          THEN conjunct2, THEN conjunct2, THEN conjunct2, THEN conjunct2, THEN conjunct1,
          THEN mp, OF conjI[OF g conjI[OF l f]], THEN conjunct2])
  have b: "snd (requestHandler pathnameUpToQuery id ?rtr (exampleRequest, emptyResponse))
     = [EmittedRequest, RanMiddleware GlobalChain 0, RanMiddleware RouteChain 0,
        RanMiddleware RouteChain 1]"
    by (simp add: requestHandler_def startState_def execMiddlewares_def callNextLoop_eval
          callNextLoop_done callNextLoop_resolve lookupRoute_def dispatch_def tryRoute_def
          splitWithoutEmptyStrings_def isParam_def normalizePath_def asMiddleware_def
          queryParser_def exampleRequest_def exampleRouter_def pathnameUpToQuery_def Let_def
          parseQuery_def initialState_def appendChar_def respond_def responseText_def
          emptyResponse_def)
  have q: "firstHalt (globalMiddlewares (exampleRouter [\<lambda>u. (u, 1)]))
             (fst (startState pathnameUpToQuery (exampleRequest\<lparr>url := ''/a?=1''\<rparr>, emptyResponse)))
           = Some 0"
    by (simp add: requestHandler_def startState_def execMiddlewares_def callNextLoop_eval
          callNextLoop_done callNextLoop_resolve lookupRoute_def dispatch_def tryRoute_def
          splitWithoutEmptyStrings_def isParam_def normalizePath_def asMiddleware_def
          queryParser_def exampleRequest_def exampleRouter_def pathnameUpToQuery_def Let_def
          parseQuery_def initialState_def appendChar_def respond_def responseText_def
          emptyResponse_def)
  have c: "handlerCalls (snd (requestHandler pathnameUpToQuery id
           (exampleRouter [\<lambda>u. (u, 1)]) (exampleRequest\<lparr>url := ''/a?=1''\<rparr>, emptyResponse))) = 0"
    by (rule middleware_chain_short_circuit[where rtr = "exampleRouter [\<lambda>u. (u, 1)]"
          and pn = pathnameUpToQuery and up = id
          and ex = "(exampleRequest\<lparr>url := ''/a?=1''\<rparr>, emptyResponse)" and j = 0,
          THEN conjunct2, THEN conjunct2, THEN conjunct2, THEN conjunct1,
          THEN mp, OF q, THEN conjunct2])
  have d: "requestHandler pathnameUpToQuery id
           (exampleRouter [\<lambda>u. (u, 1)]) (exampleRequest\<lparr>url := ''/a?=1''\<rparr>, emptyResponse)
     = ((exampleRequest\<lparr>url := ''/a?=1'', reqPath := ''/a''\<rparr>,
         \<lparr>written = [WriteHead 400 ''text/html'', End (Some ''400'')]\<rparr>),
        [EmittedRequest, RanMiddleware GlobalChain 0])"
    by (simp add: requestHandler_def startState_def execMiddlewares_def callNextLoop_eval
          callNextLoop_done callNextLoop_resolve lookupRoute_def dispatch_def tryRoute_def
          splitWithoutEmptyStrings_def isParam_def normalizePath_def asMiddleware_def
          queryParser_def exampleRequest_def exampleRouter_def pathnameUpToQuery_def Let_def
          parseQuery_def initialState_def appendChar_def respond_def responseText_def
          emptyResponse_def)
  have e: "snd (requestHandler pathnameUpToQuery id
           (exampleRouter [\<lambda>u. (u, 1)]) (exampleRequest, emptyResponse))
     = [EmittedRequest, RanMiddleware GlobalChain 0, RanMiddleware RouteChain 0,
        RanMiddleware MethodChain 0, CalledHandler]"
    by (simp add: requestHandler_def startState_def execMiddlewares_def callNextLoop_eval
          callNextLoop_done callNextLoop_resolve lookupRoute_def dispatch_def tryRoute_def
          splitWithoutEmptyStrings_def isParam_def normalizePath_def asMiddleware_def
          queryParser_def exampleRequest_def exampleRouter_def pathnameUpToQuery_def Let_def
          parseQuery_def initialState_def appendChar_def respond_def responseText_def
          emptyResponse_def)
  show ?thesis by (rule conjI[OF b conjI[OF a conjI[OF d conjI[OF c e]]]])
qed

theorem middleware_double_continuation_counterexample:
  "neverContinues (\<lambda>u :: (nat, unit) exchange. (u, 0 :: nat))
   \<and> requestHandler id id
     \<lparr>routes = DynamicRoutes
        [\<lparr>path = ''/a'', handlers = [''GET'' \<mapsto> Handler (\<lambda>u. u) []], middlewares = []\<rparr>],
      globalMiddlewares = [\<lambda>u. (u, 2), \<lambda>u. (u, 0)],
      fallback = None, responses = Map.empty, errorListeners = 0\<rparr>
     (exampleRequest, emptyResponse)
   = ((exampleRequest\<lparr>reqPath := ''/a'', reqParams := Some Map.empty\<rparr>, emptyResponse),
      [EmittedRequest, RanMiddleware GlobalChain 0, RanMiddleware GlobalChain 1, CalledHandler])
   \<and> handlerCalls
        [EmittedRequest, RanMiddleware GlobalChain 0, RanMiddleware GlobalChain 1, CalledHandler] = 1"
  by (simp add: requestHandler_def startState_def execMiddlewares_def callNextLoop_eval
          callNextLoop_done callNextLoop_resolve lookupRoute_def dispatch_def tryRoute_def
          splitWithoutEmptyStrings_def isParam_def normalizePath_def asMiddleware_def
          queryParser_def exampleRequest_def exampleRouter_def pathnameUpToQuery_def Let_def
          parseQuery_def initialState_def appendChar_def respond_def responseText_def
          emptyResponse_def
          neverContinues_def handlerCalls_def)

section \<open>Properties of the split handler\<close>

text \<open>
  Claim C7, as the code has it. Let the splitter return the index \<open>result\<close>. When \<open>result\<close>
  is negative or not below the number of candidate handlers and a listener for \<open>error\<close>
  is registered, the split handler notifies exactly one error, writes the head \<open>500\<close>,
  ends the response with the text stored under \<open>500\<close>, and calls no candidate. Without a
  listener the emission throws before anything is written: no response is sent and no
  candidate is called. When \<open>result\<close> is an index of a candidate, the split handler calls
  that candidate on the request and the response.
\<close>

theorem splitHandler_index_check:
  assumes "splitter u = ((req, res), result)"
  shows "(0 < listeners \<and> (result < 0 \<or> int (length hs) \<le> result) \<longrightarrow>
           handle listeners resps (SplitHandler splitter hs ms) (u, tr)
             = ((req, res\<lparr>written := written res @ [WriteHead 500 ''text/html'', End (resps ''500'')]\<rparr>),
                tr @ [CalledSplitter, EmittedError (SplitterOutOfRange result)])
           \<and> errorNotifications (snd (handle listeners resps (SplitHandler splitter hs ms) (u, tr)))
               = errorNotifications tr + 1
           \<and> candidateCalls (snd (handle listeners resps (SplitHandler splitter hs ms) (u, tr)))
               = candidateCalls tr)
       \<and> (listeners = 0 \<and> (result < 0 \<or> int (length hs) \<le> result) \<longrightarrow>
           handle listeners resps (SplitHandler splitter hs ms) (u, tr)
             = ((req, res), tr @ [CalledSplitter, ThrewError (SplitterOutOfRange result)]))
       \<and> (0 \<le> result \<and> result < int (length hs) \<longrightarrow>
           handle listeners resps (SplitHandler splitter hs ms) (u, tr)
             = ((hs ! nat result) (req, res), tr @ [CalledSplitter, CalledCandidate (nat result)]))"
  using assms by (auto simp: respond_def errorNotifications_def candidateCalls_def)

theorem splitHandler_index_check_witness:
  "handle 1 [''500'' \<mapsto> ''internal error'']
     (SplitHandler (\<lambda>u. (u, 2)) [\<lambda>u. u, \<lambda>u. u] []) ((exampleRequest, emptyResponse), [])
   = ((exampleRequest, \<lparr>written = [WriteHead 500 ''text/html'', End (Some ''internal error'')]\<rparr>),
      [CalledSplitter, EmittedError (SplitterOutOfRange 2)])
   \<and> errorNotifications (snd (handle 1 [''500'' \<mapsto> ''internal error'']
        (SplitHandler (\<lambda>u. (u, 2)) [\<lambda>u. u, \<lambda>u. u] []) ((exampleRequest, emptyResponse), []))) = 1
   \<and> handle 1 [''500'' \<mapsto> ''internal error'']
     (SplitHandler (\<lambda>u. (u, 1))
        [\<lambda>u. u, \<lambda>(req, res). (req, res\<lparr>written := [End (Some ''one'')]\<rparr>)] [])
     ((exampleRequest, emptyResponse), [])
   = ((exampleRequest, \<lparr>written = [End (Some ''one'')]\<rparr>), [CalledSplitter, CalledCandidate 1])"
proof -
  have s2: "(\<lambda>u. (u, 2::int)) (exampleRequest, emptyResponse) = ((exampleRequest, emptyResponse), 2)"
    by simp
  have s1: "(\<lambda>u. (u, 1::int)) (exampleRequest, emptyResponse) = ((exampleRequest, emptyResponse), 1)"
    by simp
  note t2 = splitHandler_index_check[where splitter = "\<lambda>u. (u, 2)"
        and u = "(exampleRequest, emptyResponse)"
        and req = exampleRequest and res = emptyResponse and result = 2
        and hs = "[\<lambda>u. u, \<lambda>u. u]" and listeners = 1
        and resps = "[''500'' \<mapsto> ''internal error'']" and ms = "[]" and tr = "[]", OF s2]
  have a: "handle 1 [''500'' \<mapsto> ''internal error'']
     (SplitHandler (\<lambda>u. (u, 2)) [\<lambda>u. u, \<lambda>u. u] []) ((exampleRequest, emptyResponse), [])
   = ((exampleRequest, \<lparr>written = [WriteHead 500 ''text/html'', End (Some ''internal error'')]\<rparr>),
      [CalledSplitter, EmittedError (SplitterOutOfRange 2)])"
    using t2 by (simp add: emptyResponse_def)
  have c: "errorNotifications (snd (handle 1 [''500'' \<mapsto> ''internal error'']
        (SplitHandler (\<lambda>u. (u, 2)) [\<lambda>u. u, \<lambda>u. u] []) ((exampleRequest, emptyResponse), []))) = 1"
    using t2 by (simp add: errorNotifications_def)
  have b: "handle 1 [''500'' \<mapsto> ''internal error'']
     (SplitHandler (\<lambda>u. (u, 1))
        [\<lambda>u. u, \<lambda>(req, res). (req, res\<lparr>written := [End (Some ''one'')]\<rparr>)] [])
     ((exampleRequest, emptyResponse), [])
   = ((exampleRequest, \<lparr>written = [End (Some ''one'')]\<rparr>), [CalledSplitter, CalledCandidate 1])"
    using splitHandler_index_check[where splitter = "\<lambda>u. (u, 1)"
        and u = "(exampleRequest, emptyResponse)"
        and req = exampleRequest and res = emptyResponse and result = 1 and listeners = 1
        and hs = "[\<lambda>u. u, \<lambda>(req, res). (req, res\<lparr>written := [End (Some ''one'')]\<rparr>)]"
        and resps = "[''500'' \<mapsto> ''internal error'']" and ms = "[]" and tr = "[]", OF s1]
    by (simp add: emptyResponse_def)
  show ?thesis by (rule conjI[OF a conjI[OF c b]])
qed

theorem splitHandler_without_listener_counterexample:
  "handle 0 [''500'' \<mapsto> ''internal error'']
     (SplitHandler (\<lambda>u. (u, 2)) [\<lambda>u. u, \<lambda>u. u] []) ((exampleRequest, emptyResponse), [])
   = ((exampleRequest, emptyResponse), [CalledSplitter, ThrewError (SplitterOutOfRange 2)])
   \<and> requestHandler id id
     \<lparr>routes = DynamicRoutes
        [\<lparr>path = ''/a'',
          handlers = [''GET'' \<mapsto> SplitHandler (\<lambda>u. (u, 2)) [\<lambda>u. u, \<lambda>u. u] []],
          middlewares = []\<rparr>],
      globalMiddlewares = [], fallback = None,
      responses = [''500'' \<mapsto> ''internal error''], errorListeners = 0\<rparr>
     (exampleRequest, emptyResponse)
   = ((exampleRequest\<lparr>reqPath := ''/a'', reqParams := Some Map.empty\<rparr>, emptyResponse),
      [EmittedRequest, CalledSplitter, ThrewError (SplitterOutOfRange 2)])
   \<and> written emptyResponse = []"
  by (simp add: requestHandler_def startState_def execMiddlewares_def lookupRoute_def
        dispatch_def tryRoute_def splitWithoutEmptyStrings_def isParam_def normalizePath_def
        exampleRequest_def emptyResponse_def Let_def)

section \<open>Properties of the field parsers\<close>

text \<open>
  Claim C2 fails on the code for the empty input: after the loop \<^verbatim>\<open>parseQuery\<close> returns
  \<^verbatim>\<open>null\<close> whenever the key buffer is empty, and for the empty string the loop never
  fills it. The doc comment of the function promises an empty object there.
\<close>

theorem parseQuery_empty_is_null: "parseQuery toNumber [] convertValues = None"
  by (simp add: parseQuery_def initialState_def)

lemma hexDigit_percent: "hexDigit CHR ''%'' = None"
  by (simp add: hexDigit_def)

lemma charCode_percent: "charCode CHR ''%'' h = None" "charCode h CHR ''%'' = None"
  by (auto simp: charCode_def hexDigit_percent split: option.splits)

lemma parseQueryLoop_bad_escape:
  "\<not> validEscape rest \<Longrightarrow> parseQueryLoop tn cv (pre @ CHR ''%'' # rest) st = None"
proof (induction pre arbitrary: st rule: length_induct)
  case (1 pre)
  show ?case
  proof (cases pre)
    case Nil
    then show ?thesis using "1.prems"
      by (auto simp: validEscape_def split: list.splits option.splits)
  next
    case (Cons c pre')
    have ih: "\<And>ys st'. length ys < length pre \<Longrightarrow> parseQueryLoop tn cv (ys @ CHR ''%'' # rest) st' = None"
      using "1.IH" "1.prems" by blast
    have step: "\<And>st'. parseQueryLoop tn cv (pre' @ CHR ''%'' # rest) st' = None"
      by (rule ih) (simp add: Cons)
    show ?thesis
    proof (cases "c = CHR ''%''")
      case False
      then show ?thesis using Cons step by simp
    next
      case True
      show ?thesis
      proof (cases pre')
        case Nil
        then show ?thesis using Cons True
          by (cases rest) (auto simp: charCode_percent)
      next
        case (Cons a pre'')
        note c1 = this
        show ?thesis
        proof (cases pre'')
          case Nil
          then show ?thesis using \<open>pre = c # pre'\<close> c1 True by (simp add: charCode_percent)
        next
          case (Cons b pre3)
          have "parseQueryLoop tn cv (pre3 @ CHR ''%'' # rest) st' = None" for st'
            by (rule ih) (simp add: \<open>pre = c # pre'\<close> c1 Cons)
          then show ?thesis using \<open>pre = c # pre'\<close> c1 Cons True
            by (simp split: option.splits)
        qed
      qed
    qed
  qed
qed

lemma parseQuery_bad_escape:
  "\<not> validEscape rest \<Longrightarrow> parseQuery tn (pre @ CHR ''%'' # rest) cv = None"
  by (simp add: parseQuery_def parseQueryLoop_bad_escape)

lemma parseQueryLoop_prefix:
  "parseQueryLoop tn cv pre st = Some st' \<Longrightarrow>
   parseQueryLoop tn cv (pre @ s) st = parseQueryLoop tn cv s st'"
proof (induction pre arbitrary: st rule: length_induct)
  case (1 pre)
  have ih: "\<And>ys st0. length ys < length pre \<Longrightarrow> parseQueryLoop tn cv ys st0 = Some st' \<Longrightarrow>
      parseQueryLoop tn cv (ys @ s) st0 = parseQueryLoop tn cv s st'"
    using "1.IH" by blast
  show ?case
  proof (cases pre)
    case Nil
    then show ?thesis using "1.prems" by simp
  next
    case (Cons c cs)
    note pre = this
    show ?thesis
    proof (cases "c = CHR ''%''")
      case False
      have step: "\<And>st0. parseQueryLoop tn cv cs st0 = Some st' \<Longrightarrow>
          parseQueryLoop tn cv (cs @ s) st0 = parseQueryLoop tn cv s st'"
        by (rule ih) (simp_all add: pre)
      show ?thesis using "1.prems" False step unfolding pre
        by (auto split: if_splits)
    next
      case True
      from "1.prems" True pre obtain hi lo rest code where
        cs: "cs = hi # lo # rest" and code: "charCode hi lo = Some code"
        and r: "parseQueryLoop tn cv rest (appendChar (char_of code) st) = Some st'"
        by (auto split: list.splits option.splits)
      have "parseQueryLoop tn cv (rest @ s) (appendChar (char_of code) st) = parseQueryLoop tn cv s st'"
        by (rule ih[OF _ r]) (simp add: pre cs)
      then show ?thesis using True code unfolding pre cs by simp
    qed
  qed
qed

text \<open>
  Claim C6, as the code has it. In the query-string parser a percent sign followed by two
  hexadecimal digits, after any prefix the loop has scanned, appends the character with
  that code to the key or to the value being read and goes on behind the two digits; a
  percent sign not followed by two hexadecimal digits makes the whole parse fail. The
  cookie parser does not decode: it appends the percent sign itself like any other
  character.
\<close>

theorem percent_decoding:
  "(parseQueryLoop toNumber cv pre st = Some st' \<and> charCode hi lo = Some code \<longrightarrow>
      parseQueryLoop toNumber cv (pre @ CHR ''%'' # hi # lo # rest) st
        = parseQueryLoop toNumber cv rest (appendChar (char_of code) st'))
   \<and> (\<not> validEscape rest \<longrightarrow> parseQuery toNumber (pre @ CHR ''%'' # rest) cv = None)
   \<and> cookieLoop toNumber (CHR ''%'' # rest) st = cookieLoop toNumber rest (appendChar CHR ''%'' st)"
proof (intro conjI impI)
  assume a: "parseQueryLoop toNumber cv pre st = Some st' \<and> charCode hi lo = Some code"
  have "parseQueryLoop toNumber cv (pre @ CHR ''%'' # hi # lo # rest) st
      = parseQueryLoop toNumber cv (CHR ''%'' # hi # lo # rest) st'"
    by (rule parseQueryLoop_prefix[OF conjunct1[OF a]])
  also have "\<dots> = parseQueryLoop toNumber cv rest (appendChar (char_of code) st')"
    using conjunct2[OF a] by simp
  finally show "parseQueryLoop toNumber cv (pre @ CHR ''%'' # hi # lo # rest) st
      = parseQueryLoop toNumber cv rest (appendChar (char_of code) st')" .
next
  assume "\<not> validEscape rest"
  then show "parseQuery toNumber (pre @ CHR ''%'' # rest) cv = None"
    by (rule parseQuery_bad_escape)
next
  show "cookieLoop toNumber (CHR ''%'' # rest) st = cookieLoop toNumber rest (appendChar CHR ''%'' st)"
    by simp
qed

theorem percent_decoding_witness:
  "parseQueryLoop decimalNumber True ''a=%41&b'' initialState
     = parseQueryLoop decimalNumber True ''&b''
         (appendChar CHR ''A'' \<lparr>entries = Map.empty, keyBuffer = ''a'', valueBuffer = [], readingKey = False\<rparr>)
   \<and> parseQuery decimalNumber ''a=%41&b'' True = Some [''a'' \<mapsto> JStr ''A'', ''b'' \<mapsto> JBool True]
   \<and> parseQuery decimalNumber ''a=%4'' True = None
   \<and> parseQuery decimalNumber ''a=%zz'' True = None"
proof -
  have p: "parseQueryLoop decimalNumber True ''a='' initialState
      = Some \<lparr>entries = Map.empty, keyBuffer = ''a'', valueBuffer = [], readingKey = False\<rparr>"
    by (simp add: initialState_def appendChar_def)
  have c: "charCode CHR ''4'' CHR ''1'' = Some 65"
    by (simp add: charCode_def hexDigit_def)
  have ch: "char_of (65::nat) = CHR ''A''"
    by (simp add: char_of_def bit_Suc_0_iff)
  have n1: "\<not> validEscape ''4''" by (simp add: validEscape_def)
  have n2: "\<not> validEscape ''zz''" by (simp add: validEscape_def charCode_def hexDigit_def)
  have a: "parseQueryLoop decimalNumber True ''a=%41&b'' initialState
     = parseQueryLoop decimalNumber True ''&b''
         (appendChar CHR ''A'' \<lparr>entries = Map.empty, keyBuffer = ''a'', valueBuffer = [], readingKey = False\<rparr>)"
    using percent_decoding[where toNumber = decimalNumber and cv = True and pre = "''a=''"
        and st = initialState and hi = "CHR ''4''" and lo = "CHR ''1''" and code = 65 and rest = "''&b''",
        THEN conjunct1, THEN mp, OF conjI[OF p c]]
    unfolding ch by (simp only: append.simps)
  have b: "parseQuery decimalNumber ''a=%4'' True = None"
    using percent_decoding[where toNumber = decimalNumber and cv = True and pre = "''a=''"
        and rest = "''4''", THEN conjunct2, THEN conjunct1, THEN mp, OF n1]
    by (simp only: append.simps)
  have d: "parseQuery decimalNumber ''a=%zz'' True = None"
    using percent_decoding[where toNumber = decimalNumber and cv = True and pre = "''a=''"
        and rest = "''zz''", THEN conjunct2, THEN conjunct1, THEN mp, OF n2]
    by (simp only: append.simps)
  have e: "parseQuery decimalNumber ''a=%41&b'' True = Some [''a'' \<mapsto> JStr ''A'', ''b'' \<mapsto> JBool True]"
    by (simp add: parseQuery_def initialState_def appendChar_def charCode_def hexDigit_def
          queryValue_def decimalNumber_def digitValue_def storeEntry_def char_of_def bit_Suc_0_iff)
  show ?thesis by (rule conjI[OF a conjI[OF e conjI[OF b d]]])
qed

theorem cookie_percent_counterexample:
  "parseCookies decimalNumber ''a=%41'' = Some [''a'' \<mapsto> JStr ''%41'']
   \<and> parseCookies decimalNumber ''a=%zz'' = Some [''a'' \<mapsto> JStr ''%zz'']
   \<and> parseQuery decimalNumber ''a=%41'' True = Some [''a'' \<mapsto> JStr ''A'']"
  by (simp add: parseCookies_def parseQuery_def initialState_def appendChar_def cookieValue_def
        queryValue_def charCode_def hexDigit_def decimalNumber_def digitValue_def char_of_def
        bit_Suc_0_iff)

text \<open>
  Claim C10. When the URL has no question mark the query parser invokes its continuation
  and leaves the request as it is, so \<^verbatim>\<open>req.query\<close> stays absent; when the request has no
  \<open>Cookie\<close> header the cookie parser sets \<^verbatim>\<open>req.cookies\<close> to the empty object and invokes
  its continuation.
\<close>

theorem parsers_on_absent_input:
  "(CHR ''?'' \<notin> set (url req) \<longrightarrow> queryParser toNumber resps (req, res) = ((req, res), True))
   \<and> (cookieHeader req = None \<longrightarrow>
        cookieParser toNumber resps (req, res) = ((req\<lparr>cookies := Some Map.empty\<rparr>, res), True))"
  by (simp add: queryParser_def cookieParser_def)

theorem parsers_on_absent_input_witness:
  "queryParser decimalNumber Map.empty (exampleRequest, emptyResponse)
     = ((exampleRequest, emptyResponse), True)
   \<and> query (fst (fst (queryParser decimalNumber Map.empty (exampleRequest, emptyResponse)))) = None
   \<and> cookieParser decimalNumber Map.empty (exampleRequest, emptyResponse)
     = ((exampleRequest\<lparr>cookies := Some Map.empty\<rparr>, emptyResponse), True)"
proof -
  have h1: "CHR ''?'' \<notin> set (url exampleRequest)" by (simp add: exampleRequest_def)
  have h2: "cookieHeader exampleRequest = None" by (simp add: exampleRequest_def)
  have q: "query exampleRequest = None" by (simp add: exampleRequest_def)
  note t = parsers_on_absent_input[where req = exampleRequest and res = emptyResponse
        and toNumber = decimalNumber and resps = Map.empty]
  have a: "queryParser decimalNumber Map.empty (exampleRequest, emptyResponse)
     = ((exampleRequest, emptyResponse), True)"
    by (rule t[THEN conjunct1, THEN mp, OF h1])
  have b: "cookieParser decimalNumber Map.empty (exampleRequest, emptyResponse)
     = ((exampleRequest\<lparr>cookies := Some Map.empty\<rparr>, emptyResponse), True)"
    by (rule t[THEN conjunct2, THEN mp, OF h2])
  have c: "query (fst (fst (queryParser decimalNumber Map.empty (exampleRequest, emptyResponse)))) = None"
    by (simp add: a q)
  show ?thesis by (rule conjI[OF a conjI[OF c b]])
qed

end
